theory Spec2Isabelle
  imports Complex_Main "HOL-Library.AList" "HOL-Library.List_Lexorder" "HOL-Library.Char_ord"
begin

section \<open>Python values\<close>

text \<open>
  The workflow engine passes JSON-like data around (\<^verbatim>\<open>Dict[str, Any]\<close>): DAG definitions,
  node inputs, agent results and the execution context. \<open>pyval\<close> is the part of Python's
  value universe that JSON produces. A dict is an association list in insertion order
  (Python dicts keep it); lookups take the first entry of a key, and the dicts of a run have
  each key once. Floats are left out.
\<close>

datatype pyval =
    PNone
  | PBool bool
  | PInt int
  | PStr string
  | PList "pyval list"
  | PDict "(string \<times> pyval) list"

type_synonym pydict = "(string \<times> pyval) list"

text \<open>The execution context: \<^verbatim>\<open>context: Dict[str, Any]\<close>, read with \<^verbatim>\<open>in\<close>, \<^verbatim>\<open>get\<close>
  and \<^verbatim>\<open>[]\<close> and written with \<^verbatim>\<open>context[key] = value\<close>.\<close>

type_synonym ctx = "string \<rightharpoonup> pyval"

text \<open>Python truthiness, as \<^verbatim>\<open>not x\<close> and \<^verbatim>\<open>if x\<close> test it.\<close>

fun py_truthy :: "pyval \<Rightarrow> bool" where
  "py_truthy PNone = False"
| "py_truthy (PBool b) = b"
| "py_truthy (PInt i) = (i \<noteq> 0)"
| "py_truthy (PStr s) = (s \<noteq> [])"
| "py_truthy (PList xs) = (xs \<noteq> [])"
| "py_truthy (PDict kvs) = (kvs \<noteq> [])"

text \<open>
  Python's \<^verbatim>\<open>==\<close> on these values: \<^verbatim>\<open>True == 1\<close> and \<^verbatim>\<open>False == 0\<close>, lists compare
  element by element, dicts compare as maps whatever their insertion order. \<open>py_norm\<close>
  computes a normal form (booleans as integers, dict entries sorted by key) and two values
  are equal when their normal forms are.
\<close>

fun py_norm :: "pyval \<Rightarrow> pyval" where
  "py_norm PNone = PNone"
| "py_norm (PBool b) = PInt (if b then 1 else 0)"
| "py_norm (PInt i) = PInt i"
| "py_norm (PStr s) = PStr s"
| "py_norm (PList xs) = PList (map py_norm xs)"
| "py_norm (PDict kvs) = PDict (sort_key fst (map (\<lambda>(k, v). (k, py_norm v)) kvs))"

definition py_eq :: "pyval \<Rightarrow> pyval \<Rightarrow> bool" where
  "py_eq a b = (py_norm a = py_norm b)"

text \<open>Values a \<^verbatim>\<open>set\<close> or a dict key accepts; \<^verbatim>\<open>x in s\<close> raises TypeError on the others.\<close>

fun py_hashable :: "pyval \<Rightarrow> bool" where
  "py_hashable (PList xs) = False"
| "py_hashable (PDict kvs) = False"
| "py_hashable v = True"

section \<open>Agents: \<^verbatim>\<open>evoflow/agents/base.py\<close>\<close>

text \<open>\<^verbatim>\<open>AgentResult\<close>, a dataclass. \<^verbatim>\<open>cost_estimate\<close> is a \<^verbatim>\<open>Decimal\<close>.\<close>

record AgentResult =
  success :: bool
  data :: pydict
  ar_error_message :: "string option"
  execution_time_ms :: "int option"
  cost_estimate :: "rat option"
  metadata :: "pydict option"

text \<open>
  What a call does. It returns a value; or it raises an exception that is an instance of
  \<^verbatim>\<open>Exception\<close>, given by its \<^verbatim>\<open>str\<close>; or it raises one that is not, given by the name of its
  class (\<^verbatim>\<open>asyncio.CancelledError\<close>, \<^verbatim>\<open>KeyboardInterrupt\<close>, \<^verbatim>\<open>SystemExit\<close> derive from
  \<^verbatim>\<open>BaseException\<close> only); or it never finishes. A coroutine that is cancelled while it waits
  has \<^verbatim>\<open>CancelledError\<close> raised at its \<^verbatim>\<open>await\<close>: this is what \<^verbatim>\<open>asyncio.wait_for\<close> does to
  \<^verbatim>\<open>agent.run\<close> when the timeout of the node expires.
\<close>

datatype 'a outcome = Returns 'a | Raises string | RaisesBase string | Hangs

text \<open>One statement after another: the second runs when the first has returned.\<close>

definition and_then :: "'a outcome \<Rightarrow> ('a \<Rightarrow> 'b outcome) \<Rightarrow> 'b outcome" where
  "and_then first rest =
     (case first of
        Returns v \<Rightarrow> rest v
      | Raises e \<Rightarrow> Raises e
      | RaisesBase cls \<Rightarrow> RaisesBase cls
      | Hangs \<Rightarrow> Hangs)"

text \<open>
  \<^verbatim>\<open>BaseAgent\<close> is abstract: a concrete agent supplies \<^verbatim>\<open>execute\<close>, \<^verbatim>\<open>validate_input\<close>
  and \<^verbatim>\<open>get_cost_estimate\<close>. The fields carry the suffix \<open>_impl\<close>.
\<close>

record BaseAgent =
  agent_name :: string
  execute_impl :: "pydict \<Rightarrow> ctx \<Rightarrow> AgentResult outcome"
  validate_input_impl :: "pydict \<Rightarrow> bool outcome"
  get_cost_estimate_impl :: "pydict \<Rightarrow> rat outcome"

text \<open>
  The body of the \<^verbatim>\<open>try\<close> block of \<^verbatim>\<open>BaseAgent.run\<close>. \<open>elapsed_ms\<close> is the clock reading
  \<^verbatim>\<open>int((time.time() - start_time) * 1000)\<close>.
\<close>

definition run_try :: "BaseAgent \<Rightarrow> pydict \<Rightarrow> ctx \<Rightarrow> int \<Rightarrow> AgentResult outcome" where
  "run_try a input_data context elapsed_ms =
     and_then (validate_input_impl a input_data) (\<lambda>valid.
       if \<not> valid then Raises (''Invalid input data for agent '' @ agent_name a)
       else and_then (get_cost_estimate_impl a input_data) (\<lambda>cost.
              and_then (execute_impl a input_data context) (\<lambda>result.
                Returns (result\<lparr>execution_time_ms := Some elapsed_ms,
                                cost_estimate := Some cost\<rparr>))))"

text \<open>\<^verbatim>\<open>BaseAgent.run\<close>: the handler is \<^verbatim>\<open>except Exception\<close>. It turns an instance of
  \<^verbatim>\<open>Exception\<close> into a failed result; any other exception leaves \<^verbatim>\<open>run\<close>.\<close>

definition run :: "BaseAgent \<Rightarrow> pydict \<Rightarrow> ctx \<Rightarrow> int \<Rightarrow> AgentResult outcome" where
  "run a input_data context elapsed_ms =
     (case run_try a input_data context elapsed_ms of
        Returns result \<Rightarrow> Returns result
      | Raises error_message \<Rightarrow>
          Returns \<lparr>success = False, data = [], ar_error_message = Some error_message,
                   execution_time_ms = Some elapsed_ms, cost_estimate = None, metadata = None\<rparr>
      | RaisesBase cls \<Rightarrow> RaisesBase cls
      | Hangs \<Rightarrow> Hangs)"

text \<open>
  Two agents. \<open>echo_agent\<close> accepts a non-empty input and returns it; its cost estimate
  raises for an input of more than one key. The \<^verbatim>\<open>execute\<close> of \<open>slow_agent\<close> is still waiting
  when it is cancelled.
\<close>

definition echo_agent :: BaseAgent where
  "echo_agent =
     \<lparr>agent_name = ''echo'',
      execute_impl = (\<lambda>i c. Returns \<lparr>success = True, data = i, ar_error_message = None,
                                      execution_time_ms = None, cost_estimate = None,
                                      metadata = None\<rparr>),
      validate_input_impl = (\<lambda>i. Returns (i \<noteq> [])),
      get_cost_estimate_impl = (\<lambda>i. if length i > 1 then Raises ''too much'' else Returns 0)\<rparr>"

definition slow_agent :: BaseAgent where
  "slow_agent =
     \<lparr>agent_name = ''slow'',
      execute_impl = (\<lambda>i c. RaisesBase ''CancelledError''),
      validate_input_impl = (\<lambda>i. Returns True),
      get_cost_estimate_impl = (\<lambda>i. Returns 0)\<rparr>"

section \<open>DAG nodes: \<^verbatim>\<open>evoflow/workflow/dag.py\<close>\<close>

datatype NodeStatus = PENDING | RUNNING | COMPLETED | FAILED | SKIPPED

text \<open>\<^verbatim>\<open>DAGNode\<close>, a dataclass. The field \<^verbatim>\<open>id\<close> is \<open>node_id\<close> and \<^verbatim>\<open>name\<close> is
  \<open>node_name\<close> here; \<^verbatim>\<open>retry_count\<close>, \<^verbatim>\<open>max_retries\<close> and \<^verbatim>\<open>timeout_seconds\<close> are Python
  integers.\<close>

record DAGNode =
  node_id :: string
  node_name :: string
  agent_type :: string
  agent_config :: pydict
  input_data :: pydict
  dependencies :: "string list"
  conditions :: pydict
  retry_count :: int
  max_retries :: int
  timeout_seconds :: int
  status :: NodeStatus
  result :: "pydict option"
  error_message :: "string option"

text \<open>\<^verbatim>\<open>DAGNode.can_execute\<close>.\<close>

definition can_execute :: "DAGNode \<Rightarrow> string set \<Rightarrow> bool" where
  "can_execute node completed_nodes =
     (if status node \<noteq> PENDING then False
      else list_all (\<lambda>dep. dep \<in> completed_nodes) (dependencies node))"

text \<open>\<^verbatim>\<open>d.get(key, default)\<close> on a dict.\<close>

definition dict_get :: "pydict \<Rightarrow> string \<Rightarrow> pyval \<Rightarrow> pyval" where
  "dict_get d key dflt = (case map_of d key of Some v \<Rightarrow> v | None \<Rightarrow> dflt)"

definition unhashable :: "string \<Rightarrow> string" where
  "unhashable tyname = ''unhashable type: '' @ [CHR 0x27] @ tyname @ [CHR 0x27]"

text \<open>
  \<^verbatim>\<open>DAGNode.should_skip\<close>. The context has string keys, so a \<^verbatim>\<open>context_key\<close> that is not
  a string is not in it; \<^verbatim>\<open>context_key in context\<close> raises TypeError for a list or a dict
  (\<open>Inl\<close>).
\<close>

definition should_skip :: "DAGNode \<Rightarrow> ctx \<Rightarrow> string + bool" where
  "should_skip node context =
     (if \<not> py_truthy (PDict (conditions node)) then Inr False
      else if py_eq (dict_get (conditions node) ''type'' PNone) (PStr ''skip_if'') then
        (case dict_get (conditions node) ''context_key'' PNone of
           PStr context_key \<Rightarrow>
             (case context context_key of
                Some v \<Rightarrow> Inr (py_eq v (dict_get (conditions node) ''value'' PNone))
              | None \<Rightarrow> Inr False)
         | PList xs \<Rightarrow> Inl (unhashable ''list'')
         | PDict kvs \<Rightarrow> Inl (unhashable ''dict'')
         | _ \<Rightarrow> Inr False)
      else Inr False)"

section \<open>Template resolution: \<^verbatim>\<open>TaskExecutor._resolve_template_variables\<close>\<close>

text \<open>
  The regular expression \<^verbatim>\<open>\$\{([^}]+)\}\<close> matched at the start of a string: a dollar sign,
  an opening brace, one or more characters other than the closing brace (as many as there
  are), and a closing brace. \<open>match_at\<close> returns group 1 and the text after the match.
  The three delimiters are ASCII, so scanning UTF-8 bytes finds the matches that scanning code
  points finds.
\<close>

fun match_at :: "string \<Rightarrow> (string \<times> string) option" where
  "match_at (c # d # ds) =
     (if c = CHR ''$'' \<and> d = CHR ''{'' \<and> takeWhile (\<lambda>x. x \<noteq> CHR ''}'') ds \<noteq> []
         \<and> dropWhile (\<lambda>x. x \<noteq> CHR ''}'') ds \<noteq> []
      then Some (takeWhile (\<lambda>x. x \<noteq> CHR ''}'') ds, tl (dropWhile (\<lambda>x. x \<noteq> CHR ''}'') ds))
      else None)"
| "match_at s = None"

lemma match_at_shorter: "match_at s = Some (var, rest) \<Longrightarrow> length rest < length s"
proof (cases s rule: match_at.cases)
  case (1 c d ds)
  assume m: "match_at s = Some (var, rest)"
  have "length (dropWhile (\<lambda>x. x \<noteq> CHR ''}'') ds) \<le> length ds"
    by (rule length_dropWhile_le)
  with m 1 show ?thesis
    by (auto split: if_splits)
qed simp_all

text \<open>\<^verbatim>\<open>re.sub(pattern, repl, s)\<close> with a function \<open>repl\<close> of group 1: the leftmost match is
  replaced, the scan goes on after it, and the replacement text is not scanned again.\<close>

function re_sub :: "(string \<Rightarrow> string) \<Rightarrow> string \<Rightarrow> string" where
  "re_sub repl [] = []"
| "re_sub repl (c # cs) =
     (case match_at (c # cs) of
        Some (var, rest) \<Rightarrow> repl var @ re_sub repl rest
      | None \<Rightarrow> c # re_sub repl cs)"
  by pat_completeness auto
termination
  by (relation "measure (\<lambda>(repl, s). length s)") (auto dest: match_at_shorter)

text \<open>\<^verbatim>\<open>replace_var\<close>: \<^verbatim>\<open>str(context.get(var_name, match.group(0)))\<close>. The matched text is a
  string, and \<^verbatim>\<open>str\<close> of a string is that string; \<open>str_of\<close> is Python's \<^verbatim>\<open>str\<close> on the
  values of the context.\<close>

definition replace_var :: "(pyval \<Rightarrow> string) \<Rightarrow> ctx \<Rightarrow> string \<Rightarrow> string" where
  "replace_var str_of context var_name =
     (case context var_name of
        Some v \<Rightarrow> str_of v
      | None \<Rightarrow> ''${'' @ var_name @ ''}'')"

fun resolve_template_variables :: "(pyval \<Rightarrow> string) \<Rightarrow> pyval \<Rightarrow> ctx \<Rightarrow> pyval" where
  "resolve_template_variables str_of (PStr s) context =
     PStr (re_sub (replace_var str_of context) s)"
| "resolve_template_variables str_of (PDict kvs) context =
     PDict (map (\<lambda>(k, v). (k, resolve_template_variables str_of v context)) kvs)"
| "resolve_template_variables str_of (PList xs) context =
     PList (map (\<lambda>item. resolve_template_variables str_of item context) xs)"
| "resolve_template_variables str_of PNone context = PNone"
| "resolve_template_variables str_of (PBool b) context = PBool b"
| "resolve_template_variables str_of (PInt i) context = PInt i"

text \<open>
  Vocabulary for stating what the resolver does to a string. \<open>template_text segs tail\<close> is
  the string made of the pairs of \<open>segs\<close>, each a literal followed by the placeholder of a
  key, and of the last literal \<open>tail\<close>. A key is a non-empty text without a closing brace.
  A placeholder begins a string that starts with \<^verbatim>\<open>${\<close>, then has a character other than the
  closing brace, and a closing brace later. \<open>literal_before lit following\<close>: no placeholder
  begins at a position of \<open>lit\<close> when \<open>following\<close> is the text after it. \<open>template_ok\<close>:
  the keys are keys and no placeholder begins inside a literal.
\<close>

definition template_text :: "(string \<times> string) list \<Rightarrow> string \<Rightarrow> string" where
  "template_text segs tail =
     concat (map (\<lambda>(lit, key). lit @ ''${'' @ key @ ''}'') segs) @ tail"

definition is_key :: "string \<Rightarrow> bool" where
  "is_key key = (key \<noteq> [] \<and> CHR ''}'' \<notin> set key)"

fun begins_placeholder :: "string \<Rightarrow> bool" where
  "begins_placeholder (c # d # x # xs) =
     (c = CHR ''$'' \<and> d = CHR ''{'' \<and> x \<noteq> CHR ''}'' \<and> CHR ''}'' \<in> set xs)"
| "begins_placeholder s = False"

fun literal_before :: "string \<Rightarrow> string \<Rightarrow> bool" where
  "literal_before [] following = True"
| "literal_before (c # cs) following =
     (\<not> begins_placeholder (c # cs @ following) \<and> literal_before cs following)"

fun template_ok :: "(string \<times> string) list \<Rightarrow> string \<Rightarrow> bool" where
  "template_ok [] tail = literal_before tail []"
| "template_ok ((lit, key) # segs) tail =
     (is_key key \<and> literal_before lit (''${'' @ key @ ''}'' @ template_text segs tail) \<and>
      template_ok segs tail)"

section \<open>The task executor: \<^verbatim>\<open>evoflow/workflow/executor.py\<close>\<close>

text \<open>
  What awaiting \<^verbatim>\<open>asyncio.wait_for(agent.run(input_data, context), timeout=node.timeout_seconds)\<close>
  gives: the timeout expires (\<^verbatim>\<open>asyncio.TimeoutError\<close>), the call raises another exception
  (\<open>Raised e\<close>, with \<^verbatim>\<open>str(e) = e\<close>), or it returns an \<^verbatim>\<open>AgentResult\<close>.
\<close>

datatype attempt = TimeoutError | Raised string | Returned AgentResult

text \<open>
  What the executor and the engine reach outside the process, as parameters:
  \<^item> \<open>py_str\<close>: Python's \<^verbatim>\<open>str\<close>;
  \<^item> \<open>agent_registry\<close>: the agent types that \<^verbatim>\<open>TaskExecutor._initialize_agents\<close> registers;
  \<^item> \<open>agent_run nid k input_data context\<close>: what the agent call gives for the node
    \<open>nid\<close> when \<open>k\<close> agent calls have been made for that node before, on these
    arguments (agents do I/O: the same arguments may give another result at another call);
  \<^item> \<open>db_begin_task nid\<close>, \<open>db_end_task nid\<close>: the exception, if any, that the database
    raises while \<^verbatim>\<open>_execute_node_with_tracking\<close> writes the task record of node \<open>nid\<close>
    before and after the execution.
  Constructing an agent from a custom \<^verbatim>\<open>agent_config\<close> is taken not to raise.
\<close>

record world =
  py_str :: "pyval \<Rightarrow> string"
  agent_registry :: "string list"
  agent_run :: "string \<Rightarrow> nat \<Rightarrow> pydict \<Rightarrow> ctx \<Rightarrow> attempt"
  db_begin_task :: "string \<Rightarrow> string option"
  db_end_task :: "string \<Rightarrow> string option"

text \<open>\<^verbatim>\<open>TaskExecutor.get_agent\<close>: \<open>False\<close> is the \<^verbatim>\<open>None\<close> it returns for an unknown type;
  an agent object is truthy.\<close>

definition get_agent :: "world \<Rightarrow> string \<Rightarrow> pydict \<Rightarrow> bool" where
  "get_agent w atype config = (atype \<in> set (agent_registry w))"

text \<open>The context keys \<^verbatim>\<open>f"node_{node.id}_output"\<close> and \<^verbatim>\<open>f"node_{node.id}_metadata"\<close>.\<close>

definition output_key :: "string \<Rightarrow> string" where
  "output_key nid = ''node_'' @ nid @ ''_output''"

definition metadata_key :: "string \<Rightarrow> string" where
  "metadata_key nid = ''node_'' @ nid @ ''_metadata''"

text \<open>\<^verbatim>\<open>TaskExecutor._prepare_input_data\<close>.\<close>

definition prepare_input_data :: "world \<Rightarrow> DAGNode \<Rightarrow> ctx \<Rightarrow> pydict" where
  "prepare_input_data w node context =
     (case resolve_template_variables (py_str w)
             (PDict (fold (\<lambda>dep_id acc.
                             case context (output_key dep_id) of
                               Some v \<Rightarrow> AList.update (''dependency_'' @ dep_id) v acc
                             | None \<Rightarrow> acc)
                          (dependencies node) (input_data node)))
             context of
        PDict d \<Rightarrow> d
      | _ \<Rightarrow> [])"

text \<open>
  The result of one call of \<^verbatim>\<open>execute_node\<close>: what the call returns (\<open>Inr\<close>) or the
  exception that leaves it (\<open>Inl\<close>), the node and the context as the call leaves them, and
  and two records of the model that are not variables of the code: the number of agent calls
  made for the node so far, and the context keys that the call has assigned, in order.
\<close>

record exec_result =
  returned :: "string + bool"
  node_after :: DAGNode
  context_after :: ctx
  invocations :: nat
  written :: "string list"

text \<open>
  The \<^verbatim>\<open>try\<close> block of \<^verbatim>\<open>execute_node\<close> up to the result of the agent, with the number of
  agent calls after it. A missing agent and a result with \<^verbatim>\<open>success == False\<close> raise a plain
  \<^verbatim>\<open>Exception\<close>.
\<close>

definition try_agent :: "world \<Rightarrow> DAGNode \<Rightarrow> ctx \<Rightarrow> nat \<Rightarrow> attempt \<times> nat" where
  "try_agent w node context k =
     (if \<not> get_agent w (agent_type node) (agent_config node)
      then (Raised (''Agent not found: '' @ agent_type node), k)
      else (case agent_run w (node_id node) k (prepare_input_data w node context) context of
              Returned r \<Rightarrow>
                if success r then (Returned r, Suc k)
                else (Raised (case ar_error_message r of
                                Some m \<Rightarrow> if m = [] then ''Agent execution failed'' else m
                              | None \<Rightarrow> ''Agent execution failed''), Suc k)
            | TimeoutError \<Rightarrow> (TimeoutError, Suc k)
            | Raised e \<Rightarrow> (Raised e, Suc k)))"

definition timeout_message :: "world \<Rightarrow> DAGNode \<Rightarrow> string" where
  "timeout_message w node =
     ''Node '' @ node_id node @ '' timed out after '' @ py_str w (PInt (timeout_seconds node))
       @ '' seconds''"

text \<open>
  \<^verbatim>\<open>TaskExecutor.execute_node\<close>. The retry is the recursive call of the
  \<^verbatim>\<open>except Exception\<close> handler; \<^verbatim>\<open>should_skip\<close> is outside the \<^verbatim>\<open>try\<close>, so its exception
  leaves the call.
\<close>

function execute_node :: "world \<Rightarrow> DAGNode \<Rightarrow> ctx \<Rightarrow> nat \<Rightarrow> exec_result" where
  "execute_node w node context k =
     (case should_skip node context of
        Inl e \<Rightarrow> \<lparr>returned = Inl e, node_after = node, context_after = context,
                   invocations = k, written = []\<rparr>
      | Inr skip \<Rightarrow>
          if skip then \<lparr>returned = Inr True, node_after = node\<lparr>status := SKIPPED\<rparr>,
                        context_after = context, invocations = k, written = []\<rparr>
          else (case try_agent w (node\<lparr>status := RUNNING\<rparr>) context k of
                  (Returned r, k') \<Rightarrow>
                    \<lparr>returned = Inr True,
                     node_after = node\<lparr>status := COMPLETED, result := Some (data r)\<rparr>,
                     context_after = context
                       (output_key (node_id node) \<mapsto> PDict (data r),
                        metadata_key (node_id node) \<mapsto>
                          (case metadata r of Some m \<Rightarrow> PDict m | None \<Rightarrow> PNone)),
                     invocations = k',
                     written = [output_key (node_id node), metadata_key (node_id node)]\<rparr>
                | (TimeoutError, k') \<Rightarrow>
                    \<lparr>returned = Inr False,
                     node_after = node\<lparr>status := FAILED,
                                        error_message := Some (timeout_message w node)\<rparr>,
                     context_after = context, invocations = k', written = []\<rparr>
                | (Raised error_msg, k') \<Rightarrow>
                    if retry_count node < max_retries node
                    then execute_node w (node\<lparr>retry_count := retry_count node + 1,
                                               status := PENDING\<rparr>) context k'
                    else \<lparr>returned = Inr False,
                          node_after = node\<lparr>status := FAILED, error_message := Some error_msg\<rparr>,
                          context_after = context, invocations = k', written = []\<rparr>))"
  by pat_completeness auto
termination
  by (relation "measure (\<lambda>(w, node, context, k). nat (max_retries node - retry_count node))")
     auto

declare execute_node.simps [simp del]

text \<open>\<^verbatim>\<open>DAGNode(id=..., name=..., agent_type=..., dependencies=...)\<close> with the defaults of
  the dataclass for the other fields.\<close>

definition new_node :: "string \<Rightarrow> string \<Rightarrow> string list \<Rightarrow> DAGNode" where
  "new_node nid atype deps =
     \<lparr>node_id = nid, node_name = nid, agent_type = atype, agent_config = [], input_data = [],
      dependencies = deps, conditions = [], retry_count = 0, max_retries = 3,
      timeout_seconds = 300, status = PENDING, result = None, error_message = None\<rparr>"

text \<open>The registry of \<^verbatim>\<open>TaskExecutor._initialize_agents\<close>, and a world around it: its agents
  behave as \<open>behaviour\<close> says and the database never fails.\<close>

definition initialize_agents :: "string list" where
  "initialize_agents =
     [''web_search'', ''text_writing'', ''data_analysis'', ''email_sender'', ''file_processor'']"

definition world_of :: "(string \<Rightarrow> nat \<Rightarrow> pydict \<Rightarrow> ctx \<Rightarrow> attempt) \<Rightarrow> world" where
  "world_of behaviour =
     \<lparr>py_str = (\<lambda>v. ''?''), agent_registry = initialize_agents, agent_run = behaviour,
      db_begin_task = (\<lambda>nid. None), db_end_task = (\<lambda>nid. None)\<rparr>"

definition ok_result :: AgentResult where
  "ok_result = \<lparr>success = True, data = [(''echo'', PInt 1)], ar_error_message = None,
                execution_time_ms = Some 0, cost_estimate = Some 0, metadata = None\<rparr>"

section \<open>The workflow DAG: \<^verbatim>\<open>WorkflowDAG\<close> in \<^verbatim>\<open>evoflow/workflow/dag.py\<close>\<close>

text \<open>
  \<^verbatim>\<open>WorkflowDAG\<close> holds two dicts, \<^verbatim>\<open>nodes\<close> (node ID to node) and \<^verbatim>\<open>edges\<close> (node ID to
  the list of the IDs it depends on). \<^verbatim>\<open>AList.update\<close> is the assignment \<^verbatim>\<open>d[k] = v\<close>: it
  replaces the value of a key in place and puts a new key last.
\<close>

record WorkflowDAG =
  nodes :: "(string \<times> DAGNode) list"
  edges :: "(string \<times> string list) list"

definition add_node :: "DAGNode \<Rightarrow> WorkflowDAG \<Rightarrow> WorkflowDAG" where
  "add_node node dag =
     \<lparr>nodes = AList.update (node_id node) node (nodes dag),
      edges = AList.update (node_id node) (dependencies node) (edges dag)\<rparr>"

text \<open>\<^verbatim>\<open>WorkflowDAG.__init__\<close>, which \<^verbatim>\<open>from_dict\<close> calls with the nodes it has built.\<close>

definition WorkflowDAG_init :: "DAGNode list \<Rightarrow> WorkflowDAG" where
  "WorkflowDAG_init ns = fold add_node ns \<lparr>nodes = [], edges = []\<rparr>"

subsection \<open>Kahn's algorithm\<close>

text \<open>
  \<^verbatim>\<open>WorkflowDAG.validate\<close> and \<^verbatim>\<open>_has_circular_dependency\<close> of the validators run the same
  loop on a dict \<open>graph\<close> from node to dependency list and a dict \<open>in_degree\<close>. One visit
  of the inner \<^verbatim>\<open>for node_id, dependencies in graph.items()\<close>:
\<close>

definition kahn_visit ::
  "'k \<Rightarrow> 'k \<times> 'k list \<Rightarrow> ('k \<Rightarrow> int) \<times> 'k list \<Rightarrow> ('k \<Rightarrow> int) \<times> 'k list" where
  "kahn_visit current = (\<lambda>(node_id, deps) (in_degree, queue).
     if current \<in> set deps
     then (in_degree(node_id := in_degree node_id - 1),
           if in_degree node_id - 1 = 0 then queue @ [node_id] else queue)
     else (in_degree, queue))"

text \<open>The quantity that one round of the \<^verbatim>\<open>while queue\<close> loop decreases: the length of the
  queue plus the number of nodes whose in-degree is still positive.\<close>

definition kahn_measure :: "('k \<times> 'k list) list \<Rightarrow> ('k \<Rightarrow> int) \<Rightarrow> 'k list \<Rightarrow> nat" where
  "kahn_measure graph in_degree queue =
     length queue + card {n \<in> fst ` set graph. 0 < in_degree n}"



lemma kahn_visit_measure:
  assumes "fst e \<in> fst ` set graph"
  shows "(case kahn_visit current e (in_degree, queue) of
            (d', q') \<Rightarrow> kahn_measure graph d' q') = kahn_measure graph in_degree queue"
proof -
  obtain n deps where e: "e = (n, deps)" by (cases e)
  define K where "K = fst ` set graph"
  define A where "A = {m \<in> K. 0 < in_degree m}"
  have fin: "finite A" by (simp add: A_def K_def)
  have nK: "n \<in> K" using assms e by (simp add: K_def)
  have m: "\<And>d q. kahn_measure graph d q = length q + card {m \<in> K. 0 < d m}"
    by (simp add: kahn_measure_def K_def)
  show ?thesis
  proof (cases "current \<in> set deps")
    case False
    then show ?thesis by (simp add: kahn_visit_def e)
  next
    case True
    show ?thesis
    proof (cases "in_degree n = 1")
      case one: True
      have v: "kahn_visit current e (in_degree, queue) = (in_degree(n := 0), queue @ [n])"
        using True one by (simp add: kahn_visit_def e)
      have "{m \<in> K. 0 < (in_degree(n := 0)) m} = A - {n}"
        by (auto simp: A_def)
      moreover have "n \<in> A" using nK one by (simp add: A_def)
      then have "card A = Suc (card (A - {n}))" using fin by (simp only: card.remove)
      ultimately have "Suc (card {m \<in> K. 0 < (in_degree(n := 0)) m}) = card A"
        by (simp only:)
      then show ?thesis unfolding v m A_def by simp
    next
      case other: False
      have v: "kahn_visit current e (in_degree, queue) = (in_degree(n := in_degree n - 1), queue)"
        using True other by (simp add: kahn_visit_def e)
      have "{m \<in> K. 0 < (in_degree(n := in_degree n - 1)) m} = A"
        using other by (auto simp: A_def)
      then show ?thesis unfolding v m A_def by simp
    qed
  qed
qed

lemma kahn_fold_measure:
  "set es \<subseteq> set graph \<Longrightarrow>
   (case fold (kahn_visit current) es (in_degree, queue) of
      (d', q') \<Rightarrow> kahn_measure graph d' q') = kahn_measure graph in_degree queue"
proof (induction es arbitrary: in_degree queue)
  case Nil
  then show ?case by simp
next
  case (Cons e es)
  obtain d1 q1 where s: "kahn_visit current e (in_degree, queue) = (d1, q1)"
    by (cases "kahn_visit current e (in_degree, queue)")
  have "fst e \<in> fst ` set graph" using Cons.prems by auto
  from kahn_visit_measure[OF this, of current in_degree queue] s
  have "kahn_measure graph d1 q1 = kahn_measure graph in_degree queue" by simp
  moreover have "set es \<subseteq> set graph" using Cons.prems by simp
  ultimately show ?case using Cons.IH[of d1 q1] s by simp
qed

text \<open>
  The \<^verbatim>\<open>while queue\<close> loop: \<^verbatim>\<open>current = queue.pop(0)\<close>, \<^verbatim>\<open>processed += 1\<close>, then the visits.
  It returns \<^verbatim>\<open>processed\<close>.
\<close>

function kahn_loop ::
  "('k \<times> 'k list) list \<Rightarrow> ('k \<Rightarrow> int) \<Rightarrow> 'k list \<Rightarrow> nat \<Rightarrow> nat" where
  "kahn_loop graph in_degree [] processed = processed"
| "kahn_loop graph in_degree (current # queue) processed =
     (case fold (kahn_visit current) graph (in_degree, queue) of
        (in_degree', queue') \<Rightarrow> kahn_loop graph in_degree' queue' (processed + 1))"
  by pat_completeness auto
termination
proof (relation "measure (\<lambda>(graph, in_degree, queue, processed). kahn_measure graph in_degree queue)")
  show "wf (measure (\<lambda>(graph, in_degree, queue, processed). kahn_measure graph in_degree queue))"
    by simp
next
  fix graph :: "('k \<times> 'k list) list" and in_degree current queue and processed :: nat
    and x y
  assume "(x, y) = fold (kahn_visit current) graph (in_degree, queue)"
  then have f: "fold (kahn_visit current) graph (in_degree, queue) = (x, y)"
    by simp
  have "kahn_measure graph x y = kahn_measure graph in_degree queue"
    using kahn_fold_measure[of graph graph current in_degree queue] f by simp
  then have "kahn_measure graph x y < kahn_measure graph in_degree (current # queue)"
    by (simp add: kahn_measure_def)
  then show "((graph, x, y, processed + 1), graph, in_degree, current # queue, processed)
        \<in> measure (\<lambda>(graph, in_degree, queue, processed). kahn_measure graph in_degree queue)"
    by simp
qed

declare kahn_loop.simps(2) [simp del]

text \<open>\<^verbatim>\<open>WorkflowDAG.validate\<close>. The in-degree of a node counts, entry by entry, its
  dependencies that are nodes of the DAG.\<close>

definition dag_in_degree :: "WorkflowDAG \<Rightarrow> string \<Rightarrow> int" where
  "dag_in_degree dag =
     fold (\<lambda>(node_id, deps) in_degree.
             fold (\<lambda>dep in_degree.
                     if dep \<in> set (map fst (nodes dag))
                     then in_degree(node_id := in_degree node_id + 1) else in_degree)
                  deps in_degree)
          (edges dag) (\<lambda>node_id. 0)"

definition validate :: "WorkflowDAG \<Rightarrow> bool" where
  "validate dag =
     (kahn_loop (edges dag) (dag_in_degree dag)
        (filter (\<lambda>node_id. dag_in_degree dag node_id = 0) (map fst (nodes dag))) 0
      = length (nodes dag))"

subsection \<open>\<^verbatim>\<open>WorkflowDAG.get_execution_order\<close>\<close>

text \<open>
  The inner loop that collects \<^verbatim>\<open>current_level\<close>. \<open>remaining\<close> is the set
  \<^verbatim>\<open>remaining_nodes\<close> as the list of its elements: Python iterates a set in an order of its
  own, the model keeps the order of the dict.
\<close>

definition current_level :: "WorkflowDAG \<Rightarrow> string list \<Rightarrow> string set \<Rightarrow> string list" where
  "current_level dag remaining completed_nodes =
     filter (\<lambda>node_id. case map_of (nodes dag) node_id of
                          Some node \<Rightarrow> can_execute node completed_nodes
                        | None \<Rightarrow> False) remaining"

lemma current_level_shrinks:
  assumes "current_level dag remaining completed_nodes \<noteq> []"
  shows "length (filter (\<lambda>node_id. node_id \<notin> set (current_level dag remaining completed_nodes))
           remaining) < length remaining"
proof -
  obtain x where x: "x \<in> set (current_level dag remaining completed_nodes)"
    using assms by (cases "current_level dag remaining completed_nodes") auto
  then have "x \<in> set remaining" by (simp add: current_level_def)
  with x show ?thesis by (intro length_filter_less) auto
qed

text \<open>The \<^verbatim>\<open>while remaining_nodes\<close> loop; \<open>Inl\<close> is the \<^verbatim>\<open>ValueError\<close> it raises when no
  remaining node can execute.\<close>

function build_levels ::
  "WorkflowDAG \<Rightarrow> string list \<Rightarrow> string set \<Rightarrow> string + string list list" where
  "build_levels dag remaining completed_nodes =
     (if remaining = [] then Inr []
      else if current_level dag remaining completed_nodes = []
      then Inl ''Unable to find executable nodes - possible circular dependency''
      else (case build_levels dag
                   (filter (\<lambda>node_id. node_id \<notin> set (current_level dag remaining completed_nodes))
                      remaining)
                   (completed_nodes \<union> set (current_level dag remaining completed_nodes)) of
              Inl e \<Rightarrow> Inl e
            | Inr levels \<Rightarrow> Inr (current_level dag remaining completed_nodes # levels)))"
  by pat_completeness auto
termination
  by (relation "measure (\<lambda>(dag, remaining, completed_nodes). length remaining)")
     (simp_all add: current_level_shrinks)

declare build_levels.simps [simp del]

definition get_execution_order :: "WorkflowDAG \<Rightarrow> string + string list list" where
  "get_execution_order dag =
     (if \<not> validate dag then Inl ''DAG contains cycles''
      else build_levels dag (map fst (nodes dag)) {})"

subsection \<open>Vocabulary for the properties of a DAG\<close>

definition node_ids :: "WorkflowDAG \<Rightarrow> string list" where
  "node_ids dag = map fst (nodes dag)"

definition deps_of :: "WorkflowDAG \<Rightarrow> string \<Rightarrow> string list" where
  "deps_of dag nid = (case map_of (nodes dag) nid of Some node \<Rightarrow> dependencies node | None \<Rightarrow> [])"


definition all_pending :: "WorkflowDAG \<Rightarrow> bool" where
  "all_pending dag = list_all (\<lambda>(k, node). status node = PENDING) (nodes dag)"

definition deps_declared :: "WorkflowDAG \<Rightarrow> bool" where
  "deps_declared dag =
     list_all (\<lambda>(k, node). list_all (\<lambda>dep. dep \<in> set (node_ids dag)) (dependencies node))
       (nodes dag)"

text \<open>What the methods of the class keep true of the two dicts: they have the same keys in
  the same order, a node is stored under its own ID, and its edges are its dependencies.\<close>

definition dag_inv :: "WorkflowDAG \<Rightarrow> bool" where
  "dag_inv dag =
     (distinct (map fst (nodes dag)) \<and> map fst (edges dag) = map fst (nodes dag) \<and>
      (\<forall>k node. map_of (nodes dag) k = Some node \<longrightarrow>
         node_id node = k \<and> map_of (edges dag) k = Some (dependencies node)))"

text \<open>
  \<open>graph_deps g n\<close> is \<^verbatim>\<open>graph[n]\<close>, with no dependencies for a node that is not a key. An
  order of the nodes is topological when the dependencies of each node that are nodes of the
  graph come before it. \<open>kahn_inv\<close> is the loop invariant of Kahn's algorithm: \<open>seen\<close> are
  the nodes processed so far, in order.
\<close>

definition graph_deps :: "('k \<times> 'k list) list \<Rightarrow> 'k \<Rightarrow> 'k list" where
  "graph_deps g n = (case map_of g n of Some ds \<Rightarrow> ds | None \<Rightarrow> [])"

definition topological :: "('k \<times> 'k list) list \<Rightarrow> 'k list \<Rightarrow> bool" where
  "topological g order =
     (\<forall>xs n ys. order = xs @ n # ys \<longrightarrow> set (graph_deps g n) \<inter> fst ` set g \<subseteq> set xs)"

definition kahn_inv :: "('k \<times> 'k list) list \<Rightarrow> ('k \<Rightarrow> int) \<Rightarrow> 'k list \<Rightarrow> 'k list \<Rightarrow> bool" where
  "kahn_inv g deg seen queue =
     (distinct (seen @ queue) \<and> set (seen @ queue) \<subseteq> fst ` set g \<and>
      (\<forall>n \<in> fst ` set g. int (card (set (graph_deps g n) \<inter> fst ` set g - set seen)) \<le> deg n) \<and>
      (\<forall>n \<in> set (seen @ queue). deg n = 0) \<and> topological g seen)"

text \<open>Scenario 2 of the specification: the diamond \<^verbatim>\<open>A -> B, A -> C, B -> D, C -> D\<close>.\<close>

definition diamond :: WorkflowDAG where
  "diamond = WorkflowDAG_init
     [new_node ''A'' ''web_search'' [], new_node ''B'' ''text_writing'' [''A''],
      new_node ''C'' ''data_analysis'' [''A''], new_node ''D'' ''email_sender'' [''B'', ''C'']]"

section \<open>The validator: \<^verbatim>\<open>validate_dag\<close> in \<^verbatim>\<open>evoflow/utils/validators.py\<close>\<close>

text \<open>
  The checks of \<^verbatim>\<open>validate_dag\<close> each return their own message. \<open>dag_error\<close> names the
  checks, with the values that the message prints; \<open>ValidationError\<close> is the
  \<^verbatim>\<open>except Exception\<close> branch, reached when a node ID or a dependency is a list or a dict
  (\<^verbatim>\<open>x in node_ids\<close> raises TypeError for an unhashable \<^verbatim>\<open>x\<close>).
\<close>

datatype dag_error =
    NotADict
  | NodesNotAList
  | EmptyDAG
  | NodeNotADict nat
  | MissingField nat string
  | DuplicateNodeID pyval
  | DepsNotAList pyval
  | DanglingDependency pyval pyval
  | SelfLoop pyval
  | CircularDependencies
  | ValidationError string

text \<open>The messages; \<open>str_of\<close> is Python's \<^verbatim>\<open>str\<close>, which the f-strings apply.\<close>

fun error_message :: "(pyval \<Rightarrow> string) \<Rightarrow> dag_error \<Rightarrow> string" where
  "error_message str_of NotADict = ''DAG definition must be a dictionary''"
| "error_message str_of NodesNotAList = ''Nodes must be a list''"
| "error_message str_of EmptyDAG = ''DAG must contain at least one node''"
| "error_message str_of (NodeNotADict i) =
     ''Node '' @ str_of (PInt (int i)) @ '' must be a dictionary''"
| "error_message str_of (MissingField i field) =
     ''Node '' @ str_of (PInt (int i)) @ '' missing required field: '' @ field"
| "error_message str_of (DuplicateNodeID nid) = ''Duplicate node ID: '' @ str_of nid"
| "error_message str_of (DepsNotAList nid) =
     ''Node '' @ str_of nid @ '' dependencies must be a list''"
| "error_message str_of (DanglingDependency nid dep) =
     ''Node '' @ str_of nid @ '' depends on non-existent node: '' @ str_of dep"
| "error_message str_of (SelfLoop nid) =
     ''Node '' @ str_of nid @ '' cannot depend on itself''"
| "error_message str_of CircularDependencies = ''DAG contains circular dependencies''"
| "error_message str_of (ValidationError e) = ''DAG validation error: '' @ e"

definition required_fields :: "string list" where
  "required_fields = [''id'', ''name'', ''agent_type'']"

text \<open>The message of the TypeError for a value that cannot be hashed.\<close>

fun unhashable_error :: "pyval \<Rightarrow> dag_error" where
  "unhashable_error (PDict kvs) = ValidationError (unhashable ''dict'')"
| "unhashable_error v = ValidationError (unhashable ''list'')"

text \<open>
  \<^verbatim>\<open>node["id"]\<close> and \<^verbatim>\<open>node.get("dependencies", [])\<close>. They are read after the checks that the
  node is a dict with the key \<^verbatim>\<open>id\<close> and that the dependencies are a list; the other cases
  of the model are not reached.
\<close>

definition node_id_of :: "pyval \<Rightarrow> pyval" where
  "node_id_of node = (case node of PDict kvs \<Rightarrow> dict_get kvs ''id'' PNone | _ \<Rightarrow> PNone)"

definition node_deps_of :: "pyval \<Rightarrow> pyval list" where
  "node_deps_of node =
     (case node of
        PDict kvs \<Rightarrow>
          (case dict_get kvs ''dependencies'' (PList []) of PList deps \<Rightarrow> deps | _ \<Rightarrow> [])
      | _ \<Rightarrow> [])"

text \<open>
  The first loop, \<^verbatim>\<open>for i, node in enumerate(nodes)\<close>. The set \<^verbatim>\<open>node_ids\<close> is the list of
  its elements in normal form: Python finds an element in a set by its hash and \<^verbatim>\<open>==\<close>, so
  \<^verbatim>\<open>True\<close> and \<^verbatim>\<open>1\<close> are the same element.
\<close>

fun check_nodes :: "nat \<Rightarrow> pyval list \<Rightarrow> pyval list \<Rightarrow> dag_error + pyval list" where
  "check_nodes i [] ids = Inr ids"
| "check_nodes i (node # rest) ids =
     (case node of
        PDict kvs \<Rightarrow>
          (case filter (\<lambda>field. field \<notin> fst ` set kvs) required_fields of
             field # others \<Rightarrow> Inl (MissingField i field)
           | [] \<Rightarrow>
               if \<not> py_hashable (node_id_of node) then Inl (unhashable_error (node_id_of node))
               else if py_norm (node_id_of node) \<in> set ids
               then Inl (DuplicateNodeID (node_id_of node))
               else (case dict_get kvs ''dependencies'' (PList []) of
                       PList deps \<Rightarrow>
                         check_nodes (Suc i) rest (ids @ [py_norm (node_id_of node)])
                     | _ \<Rightarrow> Inl (DepsNotAList (node_id_of node))))
      | _ \<Rightarrow> Inl (NodeNotADict i))"

text \<open>The second loop: the dependencies of one node, then all the nodes.\<close>

fun first_bad_dep :: "pyval \<Rightarrow> pyval list \<Rightarrow> pyval list \<Rightarrow> dag_error option" where
  "first_bad_dep nid [] ids = None"
| "first_bad_dep nid (dep # deps) ids =
     (if \<not> py_hashable dep then Some (unhashable_error dep)
      else if py_norm dep \<notin> set ids then Some (DanglingDependency nid dep)
      else if py_eq dep nid then Some (SelfLoop nid)
      else first_bad_dep nid deps ids)"

fun check_deps :: "pyval list \<Rightarrow> pyval list \<Rightarrow> dag_error option" where
  "check_deps [] ids = None"
| "check_deps (node # rest) ids =
     (case first_bad_dep (node_id_of node) (node_deps_of node) ids of
        Some e \<Rightarrow> Some e
      | None \<Rightarrow> check_deps rest ids)"

text \<open>
  \<^verbatim>\<open>_has_circular_dependency\<close>. The dict \<^verbatim>\<open>graph\<close> maps a node ID to its dependency list and
  \<^verbatim>\<open>in_degree\<close> maps it to the length of that list; the keys and the dependencies are in
  normal form, so that \<^verbatim>\<open>current in dependencies\<close> is membership.
\<close>

definition dependency_graph :: "pyval list \<Rightarrow> (pyval \<times> pyval list) list" where
  "dependency_graph ns =
     fold (\<lambda>node graph. AList.update (py_norm (node_id_of node))
                            (map py_norm (node_deps_of node)) graph) ns []"

definition has_circular_dependency :: "pyval list \<Rightarrow> bool" where
  "has_circular_dependency ns =
     (kahn_loop (dependency_graph ns)
        (\<lambda>nid. int (length (graph_deps (dependency_graph ns) nid)))
        (filter (\<lambda>nid. int (length (graph_deps (dependency_graph ns) nid)) = 0)
           (map fst (dependency_graph ns)))
        0
      \<noteq> length ns)"

text \<open>The checks in the order of the source; \<open>None\<close>: the definition is accepted.\<close>

definition check_dag :: "pyval \<Rightarrow> dag_error option" where
  "check_dag dag_definition =
     (case dag_definition of
        PDict items \<Rightarrow>
          (case dict_get items ''nodes'' (PList []) of
             PList ns \<Rightarrow>
               if length ns = 0 then Some EmptyDAG
               else (case check_nodes 0 ns [] of
                       Inl e \<Rightarrow> Some e
                     | Inr ids \<Rightarrow>
                         (case check_deps ns ids of
                            Some e \<Rightarrow> Some e
                          | None \<Rightarrow>
                              if has_circular_dependency ns then Some CircularDependencies
                              else None))
           | _ \<Rightarrow> Some NodesNotAList)
      | _ \<Rightarrow> Some NotADict)"

text \<open>\<^verbatim>\<open>validate_dag\<close>: the pair \<^verbatim>\<open>(is_valid, error)\<close>.\<close>

definition validate_dag :: "(pyval \<Rightarrow> string) \<Rightarrow> pyval \<Rightarrow> bool \<times> string" where
  "validate_dag str_of dag_definition =
     (case check_dag dag_definition of
        None \<Rightarrow> (True, [])
      | Some e \<Rightarrow> (False, error_message str_of e))"

subsection \<open>Vocabulary for the properties of the validator\<close>

text \<open>
  \<open>definition_nodes\<close> is the list under the key \<^verbatim>\<open>nodes\<close> of a definition that is a dict (the empty
  list when the key is absent). A node has the shape that the validator asks for when it is a
  dict with the keys \<^verbatim>\<open>id\<close>, \<^verbatim>\<open>name\<close> and \<^verbatim>\<open>agent_type\<close>, its ID can be hashed, and its
  dependencies, when given, are a list. \<open>declared_ids\<close> are the node IDs, in normal form, and
  \<open>dependency_relation\<close> holds the pairs (dependency, dependent node) of the definition.
\<close>

definition definition_nodes :: "pyval \<Rightarrow> pyval list option" where
  "definition_nodes dag_definition =
     (case dag_definition of
        PDict items \<Rightarrow> (case dict_get items ''nodes'' (PList []) of PList ns \<Rightarrow> Some ns | _ \<Rightarrow> None)
      | _ \<Rightarrow> None)"

definition has_key :: "pyval \<Rightarrow> string \<Rightarrow> bool" where
  "has_key node field = (case node of PDict kvs \<Rightarrow> field \<in> fst ` set kvs | _ \<Rightarrow> False)"

definition deps_is_list :: "pyval \<Rightarrow> bool" where
  "deps_is_list node =
     (case node of
        PDict kvs \<Rightarrow> (case dict_get kvs ''dependencies'' (PList []) of PList deps \<Rightarrow> True | _ \<Rightarrow> False)
      | _ \<Rightarrow> False)"

definition node_shape :: "pyval \<Rightarrow> bool" where
  "node_shape node =
     (has_key node ''id'' \<and> has_key node ''name'' \<and> has_key node ''agent_type'' \<and>
      py_hashable (node_id_of node) \<and> deps_is_list node)"

definition declared_ids :: "pyval list \<Rightarrow> pyval list" where
  "declared_ids ns = map (\<lambda>node. py_norm (node_id_of node)) ns"

definition dependency_relation :: "pyval list \<Rightarrow> (pyval \<times> pyval) set" where
  "dependency_relation ns =
     {(py_norm dep, py_norm (node_id_of node)) | dep node.
        node \<in> set ns \<and> dep \<in> set (node_deps_of node)}"

definition no_repeated_dependencies :: "pyval \<Rightarrow> bool" where
  "no_repeated_dependencies dag_definition =
     (case definition_nodes dag_definition of
        Some ns \<Rightarrow> list_all (\<lambda>node. distinct (map py_norm (node_deps_of node))) ns
      | None \<Rightarrow> True)"

text \<open>The checks of the validator before the cycle detection, on the list of nodes.\<close>

definition well_formed_nodes :: "pyval list \<Rightarrow> bool" where
  "well_formed_nodes ns =
     (ns \<noteq> [] \<and> (\<forall>node \<in> set ns. node_shape node) \<and> distinct (declared_ids ns) \<and>
      (\<forall>node \<in> set ns. \<forall>dep \<in> set (node_deps_of node).
         py_norm dep \<in> set (declared_ids ns) \<and> \<not> py_eq dep (node_id_of node)))"

text \<open>
  Three definitions: a chain \<^verbatim>\<open>A -> B\<close>; one node whose \<^verbatim>\<open>id\<close>, \<^verbatim>\<open>name\<close> and \<^verbatim>\<open>agent_type\<close> are
  empty strings; and the chain again with \<^verbatim>\<open>A\<close> listed twice among the dependencies of \<^verbatim>\<open>B\<close>.
\<close>

definition json_node :: "string \<Rightarrow> string \<Rightarrow> string \<Rightarrow> string list \<Rightarrow> pyval" where
  "json_node nid name agent deps =
     PDict [(''id'', PStr nid), (''name'', PStr name), (''agent_type'', PStr agent),
            (''dependencies'', PList (map PStr deps))]"

definition chain_definition :: pyval where
  "chain_definition =
     PDict [(''nodes'', PList [json_node ''A'' ''Search'' ''web_search'' [],
                               json_node ''B'' ''Write'' ''text_writing'' [''A'']])]"

definition blank_node :: pyval where
  "blank_node = PDict [(''id'', PStr []), (''name'', PStr []), (''agent_type'', PStr [])]"

definition blank_definition :: pyval where
  "blank_definition = PDict [(''nodes'', PList [blank_node])]"

definition repeated_definition :: pyval where
  "repeated_definition =
     PDict [(''nodes'', PList [json_node ''A'' ''Search'' ''web_search'' [],
                               json_node ''B'' ''Write'' ''text_writing'' [''A'', ''A'']])]"

text \<open>
  Vocabulary for the error messages. \<open>is_dict\<close>: the value is a dict. \<open>error_kind\<close> names the
  check that an error comes from. \<open>printed_id\<close> is the text that a message prints right
  after the word \<^verbatim>\<open>Node\<close>: a node number or a node ID.
\<close>

definition is_dict :: "pyval \<Rightarrow> bool" where
  "is_dict v = (case v of PDict kvs \<Rightarrow> True | _ \<Rightarrow> False)"

fun error_kind :: "dag_error \<Rightarrow> string" where
  "error_kind NotADict = ''NotADict''"
| "error_kind NodesNotAList = ''NodesNotAList''"
| "error_kind EmptyDAG = ''EmptyDAG''"
| "error_kind (NodeNotADict i) = ''NodeNotADict''"
| "error_kind (MissingField i field) = ''MissingField''"
| "error_kind (DuplicateNodeID nid) = ''DuplicateNodeID''"
| "error_kind (DepsNotAList nid) = ''DepsNotAList''"
| "error_kind (DanglingDependency nid dep) = ''DanglingDependency''"
| "error_kind (SelfLoop nid) = ''SelfLoop''"
| "error_kind CircularDependencies = ''CircularDependencies''"
| "error_kind (ValidationError e) = ''ValidationError''"

fun printed_id :: "(pyval \<Rightarrow> string) \<Rightarrow> dag_error \<Rightarrow> string" where
  "printed_id str_of (NodeNotADict i) = str_of (PInt (int i))"
| "printed_id str_of (MissingField i field) = str_of (PInt (int i))"
| "printed_id str_of (DepsNotAList nid) = str_of nid"
| "printed_id str_of (DanglingDependency nid dep) = str_of nid"
| "printed_id str_of (SelfLoop nid) = str_of nid"
| "printed_id str_of e = []"

text \<open>
  Two definitions whose messages are the same text although they fail different checks: in
  the first, \<^verbatim>\<open>A\<close> depends on an undeclared node; in the second, a node depends on itself.
  And two definitions that fail one check each: a repeated ID, an undeclared dependency.
\<close>

definition dangling_definition :: pyval where
  "dangling_definition =
     PDict [(''nodes'', PList [json_node ''A'' ''Search'' ''web_search''
                                 [''B cannot depend on itself'']])]"

definition self_loop_definition :: pyval where
  "self_loop_definition =
     PDict [(''nodes'', PList [json_node ''A depends on non-existent node: B'' ''Search''
                                 ''web_search'' [''A depends on non-existent node: B'']])]"

definition duplicate_definition :: pyval where
  "duplicate_definition =
     PDict [(''nodes'', PList [json_node ''A'' ''Search'' ''web_search'' [],
                               json_node ''A'' ''Write'' ''text_writing'' []])]"

definition undeclared_definition :: pyval where
  "undeclared_definition =
     PDict [(''nodes'', PList [json_node ''A'' ''Search'' ''web_search'' [],
                               json_node ''B'' ''Write'' ''text_writing'' [''A'', ''C'']])]"

text \<open>Python's \<^verbatim>\<open>str\<close> on strings; the other values are not printed in the examples.\<close>

definition str_of_string :: "pyval \<Rightarrow> string" where
  "str_of_string v = (case v of PStr s \<Rightarrow> s | _ \<Rightarrow> ''?'')"

section \<open>The engine: \<^verbatim>\<open>evoflow/workflow/engine.py\<close>\<close>

text \<open>
  \<^verbatim>\<open>WorkflowEngine._execute_node_with_tracking\<close>: the task record is written to the database
  before and after \<^verbatim>\<open>execute_node\<close>, and an exception of either write leaves the call. The
  executor is called for one launch, so its count of agent calls starts at 0.
\<close>

definition execute_node_with_tracking :: "world \<Rightarrow> DAGNode \<Rightarrow> ctx \<Rightarrow> exec_result" where
  "execute_node_with_tracking w node context =
     (case db_begin_task w (node_id node) of
        Some e \<Rightarrow> \<lparr>returned = Inl e, node_after = node, context_after = context,
                    invocations = 0, written = []\<rparr>
      | None \<Rightarrow>
          (case returned (execute_node w node context 0) of
             Inl e \<Rightarrow> execute_node w node context 0
           | Inr ok \<Rightarrow>
               (case db_end_task w (node_id node) of
                  Some e \<Rightarrow> (execute_node w node context 0)\<lparr>returned := Inl e\<rparr>
                | None \<Rightarrow> execute_node w node context 0)))"

text \<open>
  The state of \<^verbatim>\<open>_execute_dag\<close>: the nodes of the DAG with their mutable fields (a node is
  stored under its own ID), the shared context, the sets \<^verbatim>\<open>completed_nodes\<close> and
  \<^verbatim>\<open>failed_nodes\<close>, and two records of the model: the IDs of the nodes for which a task
  was created, in order, and the context keys assigned by the executor, in order.
\<close>

record run_state =
  dag_nodes :: "(string \<times> DAGNode) list"
  run_context :: ctx
  completed_nodes :: "string list"
  failed_nodes :: "string list"
  launched :: "string list"
  assigned :: "string list"

text \<open>
  The tasks of a level. \<^verbatim>\<open>asyncio.gather\<close> runs them concurrently; the model runs them one
  after the other in the order of their creation, which is one of the schedules of the event
  loop. The tasks share the context and each one changes its own node only. \<open>run_task\<close>
  is one task, \<open>gather\<close> returns the results in the order of the tasks.
\<close>

definition run_task :: "world \<Rightarrow> string \<Rightarrow> DAGNode \<Rightarrow> run_state \<Rightarrow> run_state \<times> (string + bool)" where
  "run_task w nid node st =
     (st\<lparr>dag_nodes := AList.update nid
            (node_after (execute_node_with_tracking w node (run_context st))) (dag_nodes st),
         run_context := context_after (execute_node_with_tracking w node (run_context st)),
         launched := launched st @ [nid],
         assigned := assigned st @ written (execute_node_with_tracking w node (run_context st))\<rparr>,
      returned (execute_node_with_tracking w node (run_context st)))"

fun gather :: "world \<Rightarrow> string list \<Rightarrow> run_state \<Rightarrow> run_state \<times> (string + bool) list" where
  "gather w [] st = (st, [])"
| "gather w (nid # nids) st =
     (case map_of (dag_nodes st) nid of
        None \<Rightarrow> gather w nids st
      | Some node \<Rightarrow>
          (case run_task w nid node st of
             (st1, res) \<Rightarrow>
               (case gather w nids st1 of
                  (st', results) \<Rightarrow> (st', res # results))))"

text \<open>The loop over \<^verbatim>\<open>enumerate(results)\<close>: one result.\<close>

definition record_result :: "string \<times> (string + bool) \<Rightarrow> run_state \<Rightarrow> run_state" where
  "record_result = (\<lambda>(nid, result) st.
     case result of
       Inl e \<Rightarrow> st\<lparr>failed_nodes := List.insert nid (failed_nodes st),
                    dag_nodes := AList.map_entry nid
                       (\<lambda>node. node\<lparr>status := FAILED, error_message := Some e\<rparr>) (dag_nodes st)\<rparr>
     | Inr ok \<Rightarrow>
         if ok then st\<lparr>completed_nodes := List.insert nid (completed_nodes st)\<rparr>
         else st\<lparr>failed_nodes := List.insert nid (failed_nodes st)\<rparr>)"

text \<open>The IDs of a level whose node is \<^verbatim>\<open>PENDING\<close> when the tasks are created.\<close>

definition level_nodes :: "run_state \<Rightarrow> string list \<Rightarrow> string list" where
  "level_nodes st level =
     filter (\<lambda>nid. case map_of (dag_nodes st) nid of
                      Some node \<Rightarrow> status node = PENDING
                    | None \<Rightarrow> False) level"

text \<open>The body of \<^verbatim>\<open>for level in execution_levels\<close>.\<close>

definition run_level :: "world \<Rightarrow> string list \<Rightarrow> run_state \<Rightarrow> run_state" where
  "run_level w level st =
     (if level_nodes st level = [] then st
      else (case gather w (level_nodes st level) st of
              (st', results) \<Rightarrow> fold record_result (zip (level_nodes st level) results) st'))"

text \<open>\<^verbatim>\<open>not dag.nodes[node_id].conditions.get("optional", False)\<close> is \<open>\<not> is_optional\<close>.\<close>

definition is_optional :: "DAGNode \<Rightarrow> bool" where
  "is_optional node = py_truthy (dict_get (conditions node) ''optional'' (PBool False))"

definition critical_failed :: "run_state \<Rightarrow> bool" where
  "critical_failed st =
     list_ex (\<lambda>nid. nid \<in> set (failed_nodes st) \<and>
                     (case map_of (dag_nodes st) nid of
                        Some node \<Rightarrow> \<not> is_optional node
                      | None \<Rightarrow> False))
       (failed_nodes st)"

text \<open>\<^verbatim>\<open>WorkflowEngine._execute_dag\<close>: \<open>Inl\<close> is the \<^verbatim>\<open>ValueError\<close> of
  \<^verbatim>\<open>get_execution_order\<close>, \<open>Inr\<close> the boolean it returns (\<open>True\<close>: the workflow is
  \<^verbatim>\<open>completed\<close>, \<open>False\<close>: it is \<^verbatim>\<open>failed\<close>).\<close>

definition initial_state :: "WorkflowDAG \<Rightarrow> ctx \<Rightarrow> run_state" where
  "initial_state dag context =
     \<lparr>dag_nodes = nodes dag, run_context = context, completed_nodes = [], failed_nodes = [],
      launched = [], assigned = []\<rparr>"

definition execute_dag :: "world \<Rightarrow> WorkflowDAG \<Rightarrow> ctx \<Rightarrow> (string + bool) \<times> run_state" where
  "execute_dag w dag context =
     (case get_execution_order dag of
        Inl e \<Rightarrow> (Inl e, initial_state dag context)
      | Inr execution_levels \<Rightarrow>
          (Inr (length (failed_nodes (fold (run_level w) execution_levels
                                         (initial_state dag context))) = 0
                \<or> \<not> critical_failed (fold (run_level w) execution_levels
                                         (initial_state dag context))),
           fold (run_level w) execution_levels (initial_state dag context)))"

subsection \<open>Vocabulary for the properties of a run\<close>

text \<open>
  What one call of \<^verbatim>\<open>execute_node\<close> leaves behind, for a node and a context \<open>c\<close>: the ID and
  the conditions of the node are those it had; \<^verbatim>\<open>True\<close> is returned with the node
  \<^verbatim>\<open>COMPLETED\<close> or \<^verbatim>\<open>SKIPPED\<close> and \<^verbatim>\<open>False\<close> with the node \<^verbatim>\<open>FAILED\<close>; and either nothing
  was assigned in the context, and then the call did not complete the node, or the two keys
  of the node were assigned, once each, and then it did.
\<close>

definition exec_post :: "DAGNode \<Rightarrow> ctx \<Rightarrow> exec_result \<Rightarrow> bool" where
  "exec_post node c r =
     (node_id (node_after r) = node_id node \<and> conditions (node_after r) = conditions node \<and>
      (returned r = Inr True \<longrightarrow>
         status (node_after r) = COMPLETED \<or> status (node_after r) = SKIPPED) \<and>
      (returned r = Inr False \<longrightarrow> status (node_after r) = FAILED) \<and>
      ((written r = [] \<and> context_after r = c \<and>
          \<not> (returned r = Inr True \<and> status (node_after r) = COMPLETED))
       \<or> (written r = [output_key (node_id node), metadata_key (node_id node)] \<and>
           (\<exists>d m. context_after r = c(output_key (node_id node) \<mapsto> d,
                                       metadata_key (node_id node) \<mapsto> m)) \<and>
           returned r = Inr True \<and> status (node_after r) = COMPLETED)))"

text \<open>The same for a task of the engine, where an exception of the database may replace the
  value returned.\<close>

definition task_post :: "DAGNode \<Rightarrow> ctx \<Rightarrow> exec_result \<Rightarrow> bool" where
  "task_post node c r =
     (node_id (node_after r) = node_id node \<and> conditions (node_after r) = conditions node \<and>
      (returned r = Inr True \<longrightarrow>
         status (node_after r) = COMPLETED \<or> status (node_after r) = SKIPPED) \<and>
      (returned r = Inr False \<longrightarrow> status (node_after r) = FAILED) \<and>
      ((written r = [] \<and> context_after r = c)
       \<or> (written r = [output_key (node_id node), metadata_key (node_id node)] \<and>
           (\<exists>d m. context_after r = c(output_key (node_id node) \<mapsto> d,
                                       metadata_key (node_id node) \<mapsto> m)))))"

text \<open>The context keys of a list of nodes.\<close>

definition node_keys :: "string list \<Rightarrow> string set" where
  "node_keys nids = (\<Union>nid \<in> set nids. {output_key nid, metadata_key nid})"

text \<open>A node is stored under its own ID.\<close>

definition own_ids :: "(string \<times> DAGNode) list \<Rightarrow> bool" where
  "own_ids ns = list_all (\<lambda>(k, node). node_id node = k) ns"

text \<open>
  What \<open>gather\<close> has done when it returns \<open>(st', rs)\<close> for the tasks \<open>nids\<close> started in
  \<open>st\<close>: a task was created for each node, only these nodes have changed, each result goes
  with the status of its node, and the keys assigned are new ones of these nodes.
\<close>

definition gathered :: "string list \<Rightarrow> run_state \<Rightarrow> run_state \<Rightarrow> (string + bool) list \<Rightarrow> bool" where
  "gathered nids st st' rs =
     (map fst (dag_nodes st') = map fst (dag_nodes st) \<and> own_ids (dag_nodes st') \<and>
      completed_nodes st' = completed_nodes st \<and> failed_nodes st' = failed_nodes st \<and>
      launched st' = launched st @ nids \<and>
      (\<forall>k. k \<notin> set nids \<longrightarrow> map_of (dag_nodes st') k = map_of (dag_nodes st) k) \<and>
      list_all2 (\<lambda>nid res. \<exists>n. map_of (dag_nodes st') nid = Some n \<and>
                    (res = Inr True \<longrightarrow> status n = COMPLETED \<or> status n = SKIPPED) \<and>
                    (res = Inr False \<longrightarrow> status n = FAILED)) nids rs \<and>
      (\<exists>new. assigned st' = assigned st @ new \<and> distinct new \<and> set new \<subseteq> node_keys nids \<and>
             (\<forall>k. k \<notin> set new \<longrightarrow> run_context st' k = run_context st k) \<and>
             dom (run_context st) \<subseteq> dom (run_context st')))"

text \<open>What the loop over the results has done when it ends in \<open>st'\<close>: the node of an
  exception is \<^verbatim>\<open>FAILED\<close>, and the nodes whose result is not \<^verbatim>\<open>True\<close> are in
  \<^verbatim>\<open>failed_nodes\<close>.\<close>

definition recorded :: "string list \<Rightarrow> (string + bool) list \<Rightarrow> run_state \<Rightarrow> run_state \<Rightarrow> bool" where
  "recorded nids rs st st' =
     (map fst (dag_nodes st') = map fst (dag_nodes st) \<and> own_ids (dag_nodes st') \<and>
      run_context st' = run_context st \<and> launched st' = launched st \<and>
      assigned st' = assigned st \<and>
      (\<forall>k. k \<notin> set nids \<longrightarrow> map_of (dag_nodes st') k = map_of (dag_nodes st) k \<and>
             (k \<in> set (failed_nodes st') \<longleftrightarrow> k \<in> set (failed_nodes st))) \<and>
      list_all2 (\<lambda>nid res.
          map_of (dag_nodes st') nid
            = map_option (\<lambda>n. case res of
                                 Inl e \<Rightarrow> n\<lparr>status := FAILED, error_message := Some e\<rparr>
                               | Inr b \<Rightarrow> n) (map_of (dag_nodes st) nid) \<and>
          (nid \<in> set (failed_nodes st') \<longleftrightarrow> nid \<in> set (failed_nodes st) \<or> res \<noteq> Inr True))
        nids rs)"

text \<open>
  The invariant of the loop over the levels, for a run started with the context \<open>c0\<close>:
  \<^verbatim>\<open>failed_nodes\<close> holds the nodes that are \<^verbatim>\<open>FAILED\<close>; the nodes launched are those that
  are no longer \<^verbatim>\<open>PENDING\<close>, each launched once, and no node is left \<^verbatim>\<open>RUNNING\<close>; the keys
  assigned are keys of launched nodes, each assigned once; the context has kept its keys, and
  the value of every key that was not assigned.
\<close>

definition run_inv :: "ctx \<Rightarrow> run_state \<Rightarrow> bool" where
  "run_inv c0 st =
     (own_ids (dag_nodes st) \<and> distinct (map fst (dag_nodes st)) \<and>
      (\<forall>k n. map_of (dag_nodes st) k = Some n \<longrightarrow>
         (k \<in> set (failed_nodes st) \<longleftrightarrow> status n = FAILED) \<and>
         (k \<in> set (launched st) \<longleftrightarrow> status n \<noteq> PENDING) \<and> status n \<noteq> RUNNING) \<and>
      set (failed_nodes st) \<subseteq> fst ` set (dag_nodes st) \<and>
      set (launched st) \<subseteq> fst ` set (dag_nodes st) \<and>
      distinct (launched st) \<and> distinct (assigned st) \<and>
      set (assigned st) \<subseteq> node_keys (launched st) \<and>
      dom c0 \<subseteq> dom (run_context st) \<and>
      (\<forall>k. k \<notin> set (assigned st) \<longrightarrow> run_context st k = c0 k))"

subsection \<open>Example runs\<close>

text \<open>
  A chain \<^verbatim>\<open>A -> B\<close> and two independent nodes of which \<^verbatim>\<open>A\<close> is optional (scenario 6 of
  the specification); a world in which the agent of \<^verbatim>\<open>A\<close> raises at every call and the
  others succeed, and a world in which every agent succeeds.
\<close>

definition chain2 :: WorkflowDAG where
  "chain2 = WorkflowDAG_init
     [new_node ''A'' ''web_search'' [], new_node ''B'' ''text_writing'' [''A'']]"

definition optional_pair :: WorkflowDAG where
  "optional_pair = WorkflowDAG_init
     [(new_node ''A'' ''web_search'' [])\<lparr>conditions := [(''optional'', PBool True)]\<rparr>,
      new_node ''B'' ''text_writing'' []]"

definition a_fails :: world where
  "a_fails = world_of (\<lambda>nid k i c. if nid = ''A'' then Raised ''boom'' else Returned ok_result)"

definition all_succeed :: world where
  "all_succeed = world_of (\<lambda>nid k i c. Returned ok_result)"

section \<open>Properties of \<^verbatim>\<open>BaseAgent.run\<close>\<close>

text \<open>
  C10, as the code has it. \<^verbatim>\<open>BaseAgent.run\<close> never lets an instance of \<^verbatim>\<open>Exception\<close> out. If
  \<^verbatim>\<open>validate_input\<close> returns false, or \<^verbatim>\<open>validate_input\<close>, \<^verbatim>\<open>get_cost_estimate\<close> or \<^verbatim>\<open>execute\<close>
  raises an instance of \<^verbatim>\<open>Exception\<close>, it returns a result with \<^verbatim>\<open>success == False\<close>, the
  error message filled in and the measured execution time; if the three calls return, it
  returns the result of \<^verbatim>\<open>execute\<close> with \<^verbatim>\<open>execution_time_ms\<close> and \<^verbatim>\<open>cost_estimate\<close> set. It
  returns a result in these cases only: an exception that is not an instance of
  \<^verbatim>\<open>Exception\<close>, raised by the first of the three calls that does not return, leaves \<^verbatim>\<open>run\<close>,
  and \<^verbatim>\<open>run\<close> does not finish when that call does not.
\<close>

theorem run_catches_exceptions:
  "(\<forall>e. run a i c t \<noteq> Raises e)
   \<and> (validate_input_impl a i = Returns False \<longrightarrow>
        run a i c t =
          Returns \<lparr>success = False, data = [],
                   ar_error_message = Some (''Invalid input data for agent '' @ agent_name a),
                   execution_time_ms = Some t, cost_estimate = None, metadata = None\<rparr>)
   \<and> (\<forall>e. validate_input_impl a i = Raises e
           \<or> validate_input_impl a i = Returns True \<and> get_cost_estimate_impl a i = Raises e
           \<or> validate_input_impl a i = Returns True
               \<and> (\<exists>cost. get_cost_estimate_impl a i = Returns cost) \<and> execute_impl a i c = Raises e
         \<longrightarrow>
         run a i c t =
           Returns \<lparr>success = False, data = [], ar_error_message = Some e,
                    execution_time_ms = Some t, cost_estimate = None, metadata = None\<rparr>)
   \<and> (\<forall>cost r. validate_input_impl a i = Returns True \<and> get_cost_estimate_impl a i = Returns cost
           \<and> execute_impl a i c = Returns r \<longrightarrow>
         run a i c t = Returns (r\<lparr>execution_time_ms := Some t, cost_estimate := Some cost\<rparr>))
   \<and> (\<forall>cls. validate_input_impl a i = RaisesBase cls
           \<or> validate_input_impl a i = Returns True \<and> get_cost_estimate_impl a i = RaisesBase cls
           \<or> validate_input_impl a i = Returns True
               \<and> (\<exists>cost. get_cost_estimate_impl a i = Returns cost)
               \<and> execute_impl a i c = RaisesBase cls
         \<longrightarrow> run a i c t = RaisesBase cls)
   \<and> (validate_input_impl a i = Hangs
         \<or> validate_input_impl a i = Returns True \<and> get_cost_estimate_impl a i = Hangs
         \<or> validate_input_impl a i = Returns True
             \<and> (\<exists>cost. get_cost_estimate_impl a i = Returns cost) \<and> execute_impl a i c = Hangs
       \<longrightarrow> run a i c t = Hangs)"
  by (cases "validate_input_impl a i"; cases "get_cost_estimate_impl a i";
      cases "execute_impl a i c")
     (auto simp: run_def run_try_def and_then_def)

theorem run_catches_exceptions_witness:
  "run echo_agent [] Map.empty 7
     = Returns \<lparr>success = False, data = [],
                ar_error_message = Some ''Invalid input data for agent echo'',
                execution_time_ms = Some 7, cost_estimate = None, metadata = None\<rparr>
   \<and> run echo_agent [(''x'', PInt 1), (''y'', PInt 2)] Map.empty 7
     = Returns \<lparr>success = False, data = [], ar_error_message = Some ''too much'',
                execution_time_ms = Some 7, cost_estimate = None, metadata = None\<rparr>
   \<and> run echo_agent [(''x'', PInt 1)] Map.empty 7
     = Returns \<lparr>success = True, data = [(''x'', PInt 1)], ar_error_message = None,
                execution_time_ms = Some 7, cost_estimate = Some 0, metadata = None\<rparr>
   \<and> run slow_agent [] Map.empty 7 = RaisesBase ''CancelledError''"
  using run_catches_exceptions[of echo_agent "[]" Map.empty 7]
    run_catches_exceptions[of echo_agent "[(''x'', PInt 1), (''y'', PInt 2)]" Map.empty 7]
    run_catches_exceptions[of echo_agent "[(''x'', PInt 1)]" Map.empty 7]
    run_catches_exceptions[of slow_agent "[]" Map.empty 7]
  by (simp add: echo_agent_def slow_agent_def)

text \<open>
  C10 as stated fails. The executor awaits \<^verbatim>\<open>agent.run\<close> under \<^verbatim>\<open>asyncio.wait_for\<close>; when the
  timeout expires while \<^verbatim>\<open>execute\<close> waits, \<^verbatim>\<open>CancelledError\<close> is raised in \<^verbatim>\<open>execute\<close>. It is
  not an instance of \<^verbatim>\<open>Exception\<close>, so the handler of \<^verbatim>\<open>run\<close> does not catch it: \<^verbatim>\<open>run\<close>
  returns no result and the exception leaves it.
\<close>

theorem run_propagates_cancellation_counterexample:
  "execute_impl slow_agent [] Map.empty = RaisesBase ''CancelledError''
   \<and> run slow_agent [] Map.empty 7 = RaisesBase ''CancelledError''
   \<and> (\<forall>r. run slow_agent [] Map.empty 7 \<noteq> Returns r)"
  by (simp add: slow_agent_def run_def run_try_def and_then_def)


section \<open>Properties of the template resolver\<close>

lemma begins_placeholder_iff:
  "begins_placeholder s \<longleftrightarrow> (\<exists>key post. is_key key \<and> s = ''${'' @ key @ ''}'' @ post)"
proof
  assume b: "begins_placeholder s"
  then obtain x xs where s: "s = CHR ''$'' # CHR ''{'' # x # xs" and x: "x \<noteq> CHR ''}''"
    and c: "CHR ''}'' \<in> set xs"
    by (cases s rule: begins_placeholder.cases) auto
  from split_list_first[OF c] obtain ys zs where xs: "xs = ys @ CHR ''}'' # zs"
    and ys: "CHR ''}'' \<notin> set ys" by blast
  have "is_key (x # ys)" using x ys by (auto simp: is_key_def)
  moreover have "s = ''${'' @ (x # ys) @ ''}'' @ zs" by (simp add: s xs)
  ultimately show "\<exists>key post. is_key key \<and> s = ''${'' @ key @ ''}'' @ post" by blast
next
  assume "\<exists>key post. is_key key \<and> s = ''${'' @ key @ ''}'' @ post"
  then obtain key post where k: "is_key key" and s: "s = ''${'' @ key @ ''}'' @ post" by blast
  from k obtain x ys where key: "key = x # ys" and x: "x \<noteq> CHR ''}''"
    by (cases key) (auto simp: is_key_def)
  show "begins_placeholder s" using x by (simp add: s key)
qed

lemma match_at_None_iff: "match_at s = None \<longleftrightarrow> \<not> begins_placeholder s"
proof (cases s rule: begins_placeholder.cases)
  case (1 c d x xs)
  have "dropWhile (\<lambda>y. y \<noteq> CHR ''}'') xs \<noteq> [] \<longleftrightarrow> CHR ''}'' \<in> set xs"
    by (auto simp: dropWhile_eq_Nil_conv)
  then show ?thesis using 1 by auto
qed simp_all

lemma match_at_key:
  assumes "is_key key"
  shows "match_at (''${'' @ key @ ''}'' @ post) = Some (key, post)"
proof -
  have all: "\<And>x. x \<in> set key \<Longrightarrow> x \<noteq> CHR ''}''" using assms by (auto simp: is_key_def)
  have t: "takeWhile (\<lambda>x. x \<noteq> CHR ''}'') (key @ CHR ''}'' # post) = key"
    using all by (simp add: takeWhile_append2)
  have d: "dropWhile (\<lambda>x. x \<noteq> CHR ''}'') (key @ CHR ''}'' # post) = CHR ''}'' # post"
    using all by (simp add: dropWhile_append2)
  show ?thesis using assms t d by (simp add: is_key_def)
qed

lemma re_sub_literal:
  "literal_before lit following \<Longrightarrow> re_sub repl (lit @ following) = lit @ re_sub repl following"
proof (induction lit)
  case Nil
  then show ?case by simp
next
  case (Cons c cs)
  then have "match_at (c # cs @ following) = None" by (simp add: match_at_None_iff)
  with Cons show ?case by (simp del: match_at.simps)
qed

lemma re_sub_template_ok:
  "template_ok segs tail \<Longrightarrow>
   re_sub repl (template_text segs tail) = concat (map (\<lambda>(lit, key). lit @ repl key) segs) @ tail"
proof (induction segs)
  case Nil
  then show ?case using re_sub_literal[of tail "[]" repl] by (simp add: template_text_def)
next
  case (Cons seg segs)
  obtain lit key where seg: "seg = (lit, key)" by (cases seg)
  let ?rest = "template_text segs tail"
  have k: "is_key key" and l: "literal_before lit (''${'' @ key @ ''}'' @ ?rest)"
    and ok: "template_ok segs tail"
    using Cons.prems by (simp_all add: seg)
  have t: "template_text (seg # segs) tail = lit @ (''${'' @ key @ ''}'' @ ?rest)"
    by (simp add: template_text_def seg)
  have "re_sub repl (template_text (seg # segs) tail)
        = lit @ re_sub repl (''${'' @ key @ ''}'' @ ?rest)"
    unfolding t using l by (rule re_sub_literal)
  also have "re_sub repl (''${'' @ key @ ''}'' @ ?rest) = repl key @ re_sub repl ?rest"
    using match_at_key[OF k, of ?rest] by (simp del: match_at.simps)
  finally show ?case using Cons.IH[OF ok] by (simp add: seg)
qed

lemma every_string_is_a_template:
  "\<exists>segs tail. s = template_text segs tail \<and> template_ok segs tail"
proof (induction "length s" arbitrary: s rule: less_induct)
  case less
  show ?case
  proof (cases s)
    case Nil
    have "s = template_text [] []" "template_ok [] []" by (simp_all add: Nil template_text_def)
    then show ?thesis by blast
  next
    case (Cons c cs)
    show ?thesis
    proof (cases "begins_placeholder s")
      case True
      then obtain key post where k: "is_key key" and s: "s = ''${'' @ key @ ''}'' @ post"
        unfolding begins_placeholder_iff by blast
      have "length post < length s" by (simp add: s)
      from less[OF this] obtain segs tail where p: "post = template_text segs tail"
        and ok: "template_ok segs tail" by blast
      have "s = template_text (([], key) # segs) tail" by (simp add: s p template_text_def)
      moreover have "template_ok (([], key) # segs) tail" using k ok by simp
      ultimately show ?thesis by blast
    next
      case False
      have "length cs < length s" by (simp add: Cons)
      from less[OF this] obtain segs tail where p: "cs = template_text segs tail"
        and ok: "template_ok segs tail" by blast
      show ?thesis
      proof (cases segs)
        case Nil
        have "s = template_text [] (c # tail)" using p by (simp add: Cons Nil template_text_def)
        moreover have "template_ok [] (c # tail)"
          using ok False p by (simp add: Cons Nil template_text_def)
        ultimately show ?thesis by blast
      next
        case (Cons seg segs')
        obtain lit key where seg: "seg = (lit, key)" by (cases seg)
        have e: "cs = lit @ ''${'' @ key @ ''}'' @ template_text segs' tail"
          using p by (simp add: Cons seg template_text_def)
        have "s = template_text ((c # lit, key) # segs') tail"
          using e by (simp add: \<open>s = c # cs\<close> template_text_def)
        moreover have "template_ok ((c # lit, key) # segs') tail"
          using ok False e by (simp add: Cons seg \<open>s = c # cs\<close>)
        ultimately show ?thesis by blast
      qed
    qed
  qed
qed

text \<open>
  C8, as the code has it. The resolver scans a string from the left and replaces each match of
  \<^verbatim>\<open>${KEY}\<close>, where \<^verbatim>\<open>KEY\<close> is the text between \<^verbatim>\<open>${\<close> and the next closing brace, not empty
  and otherwise arbitrary: by \<^verbatim>\<open>str(context[KEY])\<close> when \<^verbatim>\<open>KEY\<close> is a key of the context, by the
  matched text itself when not. In words of a template: for literals in which no placeholder
  begins and keys that are not empty and have no closing brace, the result is the same text
  with each placeholder replaced so, and every string is such a template, so this says what
  the resolver returns for every string. The resolver recurses into the values of a dict and
  the items of a list, and returns the other values unchanged. It is a function of its
  arguments, so it is deterministic, returns for every input, and the context is only read.
\<close>

theorem resolve_template_variables_scans:
  "(template_ok segs tail \<longrightarrow>
    resolve_template_variables str_of (PStr (template_text segs tail)) context
      = PStr (concat (map (\<lambda>(lit, key). lit @ (case context key of
                                                 Some v \<Rightarrow> str_of v
                                               | None \<Rightarrow> ''${'' @ key @ ''}'')) segs) @ tail))
   \<and> (\<exists>segs tail. s = template_text segs tail \<and> template_ok segs tail)
   \<and> resolve_template_variables str_of (PDict kvs) context
      = PDict (map (\<lambda>(k, v). (k, resolve_template_variables str_of v context)) kvs)
   \<and> resolve_template_variables str_of (PList xs) context
      = PList (map (\<lambda>item. resolve_template_variables str_of item context) xs)
   \<and> resolve_template_variables str_of PNone context = PNone
   \<and> resolve_template_variables str_of (PBool b) context = PBool b
   \<and> resolve_template_variables str_of (PInt i) context = PInt i"
proof -
  have "resolve_template_variables str_of (PStr (template_text segs tail)) context
      = PStr (concat (map (\<lambda>(lit, key). lit @ (case context key of
                                                 Some v \<Rightarrow> str_of v
                                               | None \<Rightarrow> ''${'' @ key @ ''}'')) segs) @ tail)"
    if "template_ok segs tail"
    using re_sub_template_ok[OF that, of "replace_var str_of context"]
    by (simp add: replace_var_def)
  moreover have "\<exists>segs tail. s = template_text segs tail \<and> template_ok segs tail"
    by (rule every_string_is_a_template)
  ultimately show ?thesis by simp
qed

theorem resolve_template_variables_scans_witness:
  "resolve_template_variables (\<lambda>v. case v of PInt n \<Rightarrow> (if n = 42 then ''42'' else ''?'') | _ \<Rightarrow> ''?'')
     (PDict [(''prompt'', PStr ''got ${a} and ${b}!''),
             (''n'', PList [PInt 3, PStr ''${} ${a} y ${'']),
             (''odd'', PStr ''${a b}${'')])
     [''a'' \<mapsto> PInt 42, ''a b'' \<mapsto> PInt 42]
   = PDict [(''prompt'', PStr ''got 42 and ${b}!''),
            (''n'', PList [PInt 3, PStr ''${} 42 y ${'']),
            (''odd'', PStr ''42${'')]"
  using resolve_template_variables_scans
    [of "[(''got '', ''a''), ('' and '', ''b'')]" "''!''"
        "\<lambda>v. case v of PInt n \<Rightarrow> (if n = 42 then ''42'' else ''?'') | _ \<Rightarrow> ''?''"
        "[''a'' \<mapsto> PInt 42, ''a b'' \<mapsto> PInt 42]"]
    resolve_template_variables_scans
    [of "[(''${} '', ''a'')]" "'' y ${''"
        "\<lambda>v. case v of PInt n \<Rightarrow> (if n = 42 then ''42'' else ''?'') | _ \<Rightarrow> ''?''"
        "[''a'' \<mapsto> PInt 42, ''a b'' \<mapsto> PInt 42]"]
    resolve_template_variables_scans
    [of "[([], ''a b'')]" "''${''"
        "\<lambda>v. case v of PInt n \<Rightarrow> (if n = 42 then ''42'' else ''?'') | _ \<Rightarrow> ''?''"
        "[''a'' \<mapsto> PInt 42, ''a b'' \<mapsto> PInt 42]"]
  by (simp add: template_text_def is_key_def del: resolve_template_variables.simps(1))

text \<open>
  C8 as stated fails. In \<^verbatim>\<open>${${a}}\<close> the match begins at the first \<^verbatim>\<open>${\<close> and its key is \<^verbatim>\<open>${a\<close>,
  which is not a key of the context, so the match is left as it is; the scan goes on after
  the match. The placeholder \<^verbatim>\<open>${a}\<close> inside it is not replaced although \<^verbatim>\<open>a\<close> is a key of the
  context.
\<close>

theorem nested_placeholder_is_not_replaced_counterexample:
  "''${${a}}'' = ''${'' @ (''${'' @ ''a'' @ ''}'') @ ''}''
   \<and> [''a'' \<mapsto> PInt 42] ''a'' = Some (PInt 42)
   \<and> (\<forall>str_of. resolve_template_variables str_of (PStr ''${${a}}'') [''a'' \<mapsto> PInt 42]
                 = PStr ''${${a}}'')"
  by (simp add: replace_var_def)


section \<open>Properties of the task executor\<close>

lemma should_skip_cong: "conditions n = conditions m \<Longrightarrow> should_skip n c = should_skip m c"
  by (simp add: should_skip_def split: pyval.splits option.splits)

lemma should_skip_upd [simp]:
  "should_skip (node\<lparr>retry_count := rc\<rparr>) c = should_skip node c"
  "should_skip (node\<lparr>status := st\<rparr>) c = should_skip node c"
  by (rule should_skip_cong, simp)+

lemma prepare_input_data_upd [simp]:
  "prepare_input_data w (node\<lparr>status := st\<rparr>) context = prepare_input_data w node context"
  by (simp add: prepare_input_data_def)

lemma try_agent_count: "try_agent w node context k = (a, k') \<Longrightarrow> k' \<le> Suc k"
  by (auto simp: try_agent_def split: if_splits attempt.splits)

lemma invocations_bound:
  "invocations (execute_node w node context k) \<le> k + 1 + nat (max_retries node - retry_count node)"
proof (induction w node "context" k rule: execute_node.induct)
  case (1 w node ctxt k)
  show ?case
  proof (cases "should_skip node ctxt")
    case (Inl e)
    then show ?thesis by (simp add: execute_node.simps)
  next
    case (Inr skip)
    show ?thesis
    proof (cases skip)
      case True
      with Inr show ?thesis by (simp add: execute_node.simps)
    next
      case False
      obtain a k' where t: "try_agent w (node\<lparr>status := RUNNING\<rparr>) ctxt k = (a, k')"
        by (cases "try_agent w (node\<lparr>status := RUNNING\<rparr>) ctxt k")
      then have k': "k' \<le> Suc k" by (rule try_agent_count)
      show ?thesis
      proof (cases a)
        case TimeoutError
        with Inr False t k' show ?thesis by (simp add: execute_node.simps)
      next
        case (Returned r)
        with Inr False t k' show ?thesis by (simp add: execute_node.simps)
      next
        case (Raised e)
        show ?thesis
        proof (cases "retry_count node < max_retries node")
          case lt: True
          have "invocations (execute_node w (node\<lparr>retry_count := retry_count node + 1, status := PENDING\<rparr>) ctxt k')
                \<le> k' + 1 + nat (max_retries (node\<lparr>retry_count := retry_count node + 1, status := PENDING\<rparr>)
                     - retry_count (node\<lparr>retry_count := retry_count node + 1, status := PENDING\<rparr>))"
            using "1.IH"[OF Inr False t[symmetric] Raised lt] by simp
          moreover have "execute_node w node ctxt k = execute_node w (node\<lparr>retry_count := retry_count node + 1, status := PENDING\<rparr>) ctxt k'"
            using Inr False t Raised lt by (subst execute_node.simps) simp
          ultimately show ?thesis using k' lt by simp
        next
          case False
          with Inr \<open>\<not> skip\<close> t Raised k' show ?thesis by (simp add: execute_node.simps)
        qed
      qed
    qed
  qed
qed

lemma try_agent_not_found:
  "\<not> get_agent w (agent_type node) (agent_config node) \<Longrightarrow>
   try_agent w (node\<lparr>status := st\<rparr>) c k = (Raised (''Agent not found: '' @ agent_type node), k)"
  by (simp add: try_agent_def get_agent_def)

lemma agent_not_found_retries:
  "\<not> get_agent w (agent_type node) (agent_config node) \<Longrightarrow> should_skip node c = Inr False \<Longrightarrow>
   execute_node w node c k =
     \<lparr>returned = Inr False,
      node_after = node\<lparr>retry_count := max (retry_count node) (max_retries node), status := FAILED,
                         error_message := Some (''Agent not found: '' @ agent_type node)\<rparr>,
      context_after = c, invocations = k, written = []\<rparr>"
proof (induction w node c k rule: execute_node.induct)
  case (1 w node c k)
  have t: "try_agent w (node\<lparr>status := RUNNING\<rparr>) c k = (Raised (''Agent not found: '' @ agent_type node), k)"
    using "1.prems"(1) by (rule try_agent_not_found)
  show ?case
  proof (cases "retry_count node < max_retries node")
    case True
    let ?n = "node\<lparr>retry_count := retry_count node + 1, status := PENDING\<rparr>"
    have "execute_node w ?n c k =
     \<lparr>returned = Inr False,
      node_after = ?n\<lparr>retry_count := max (retry_count ?n) (max_retries ?n), status := FAILED,
                         error_message := Some (''Agent not found: '' @ agent_type ?n)\<rparr>,
      context_after = c, invocations = k, written = []\<rparr>"
      using "1.IH"[OF "1.prems"(2) _ t[symmetric] refl True] "1.prems" by simp
    moreover have "execute_node w node c k = execute_node w ?n c k"
      using "1.prems"(2) t True by (subst execute_node.simps) simp
    moreover have "max (retry_count node + 1) (max_retries node) = max (retry_count node) (max_retries node)"
      using True by simp
    ultimately show ?thesis by simp
  next
    case False
    then have "max (retry_count node) (max_retries node) = retry_count node" by simp
    with False "1.prems"(2) t show ?thesis by (subst execute_node.simps) simp
  qed
qed

lemma timeout_fails_at_once:
  assumes "should_skip node c = Inr False"
    and "get_agent w (agent_type node) (agent_config node)"
    and "agent_run w (node_id node) k (prepare_input_data w node c) c = TimeoutError"
  shows "execute_node w node c k =
     \<lparr>returned = Inr False,
      node_after = node\<lparr>status := FAILED, error_message := Some (timeout_message w node)\<rparr>,
      context_after = c, invocations = Suc k, written = []\<rparr>"
  using assms by (subst execute_node.simps) (simp add: try_agent_def)

lemma failure_is_retried:
  assumes "should_skip node c = Inr False"
    and "try_agent w (node\<lparr>status := RUNNING\<rparr>) c k = (Raised e, k')"
    and "retry_count node < max_retries node"
  shows "execute_node w node c k =
         execute_node w (node\<lparr>retry_count := retry_count node + 1, status := PENDING\<rparr>) c k'"
  using assms by (subst execute_node.simps) simp

lemma returned_exception:
  "returned (execute_node w node c k) = Inl e \<Longrightarrow> should_skip node c = Inl e"
proof (induction w node c k rule: execute_node.induct)
  case (1 w node c k)
  show ?case
  proof (cases "should_skip node c")
    case (Inl e')
    with "1.prems" show ?thesis by (simp add: execute_node.simps)
  next
    case (Inr skip)
    show ?thesis
    proof (cases skip)
      case True
      with Inr "1.prems" show ?thesis by (simp add: execute_node.simps)
    next
      case False
      obtain a k' where t: "try_agent w (node\<lparr>status := RUNNING\<rparr>) c k = (a, k')"
        by (cases "try_agent w (node\<lparr>status := RUNNING\<rparr>) c k")
      show ?thesis
      proof (cases a)
        case TimeoutError
        with Inr False t "1.prems" show ?thesis by (simp add: execute_node.simps)
      next
        case (Returned r)
        with Inr False t "1.prems" show ?thesis by (simp add: execute_node.simps)
      next
        case (Raised msg)
        show ?thesis
        proof (cases "retry_count node < max_retries node")
          case lt: True
          have "execute_node w node c k = execute_node w (node\<lparr>retry_count := retry_count node + 1, status := PENDING\<rparr>) c k'"
            using Inr False t Raised lt by (subst execute_node.simps) simp
          with "1.prems" "1.IH"[OF Inr False t[symmetric] Raised lt] show ?thesis by simp
        next
          case False
          with Inr \<open>\<not> skip\<close> t Raised "1.prems" show ?thesis by (simp add: execute_node.simps)
        qed
      qed
    qed
  qed
qed


lemmas example_defs = should_skip_def new_node_def world_of_def try_agent_def get_agent_def
  initialize_agents_def timeout_message_def ok_result_def prepare_input_data_def
  output_key_def metadata_key_def

text \<open>
  C2 as stated fails. Scenario 5 of the specification: a node with \<^verbatim>\<open>timeout_seconds = 1\<close> and
  \<^verbatim>\<open>max_retries = 2\<close> whose agent never answers in time. The agent is called once, not three
  times, and the node is \<^verbatim>\<open>FAILED\<close> with \<^verbatim>\<open>retry_count == 0\<close>, not 2: the handler of
  \<^verbatim>\<open>asyncio.TimeoutError\<close> returns without looking at \<^verbatim>\<open>max_retries\<close>.
\<close>

theorem timeout_is_not_retried_counterexample:
  "invocations (execute_node (world_of (\<lambda>nid k i c. TimeoutError))
      ((new_node ''n'' ''web_search'' [])\<lparr>max_retries := 2, timeout_seconds := 1\<rparr>)
      Map.empty 0) = 1
   \<and> retry_count (node_after (execute_node (world_of (\<lambda>nid k i c. TimeoutError))
      ((new_node ''n'' ''web_search'' [])\<lparr>max_retries := 2, timeout_seconds := 1\<rparr>)
      Map.empty 0)) = 0
   \<and> status (node_after (execute_node (world_of (\<lambda>nid k i c. TimeoutError))
      ((new_node ''n'' ''web_search'' [])\<lparr>max_retries := 2, timeout_seconds := 1\<rparr>)
      Map.empty 0)) = FAILED"
  by (simp add: execute_node.simps example_defs)

text \<open>
  C2, amended. When the agent call of a node exceeds \<^verbatim>\<open>timeout_seconds\<close>, \<^verbatim>\<open>execute_node\<close>
  marks the node \<^verbatim>\<open>FAILED\<close> with the time-out message and returns \<^verbatim>\<open>False\<close> at once:
  \<^verbatim>\<open>retry_count\<close> and the context are unchanged and the agent is not called again. The retry
  policy applies to the other failures of an attempt (the agent is missing, returns
  \<^verbatim>\<open>success == False\<close> or raises): while \<^verbatim>\<open>retry_count < max_retries\<close> the count is
  incremented and the node is executed again, otherwise the node becomes \<^verbatim>\<open>FAILED\<close>.
\<close>

theorem timeout_fails_node_without_retry:
  "(should_skip node c = Inr False \<and> get_agent w (agent_type node) (agent_config node)
      \<and> agent_run w (node_id node) k (prepare_input_data w node c) c = TimeoutError \<longrightarrow>
    execute_node w node c k =
      \<lparr>returned = Inr False,
       node_after = node\<lparr>status := FAILED, error_message := Some (timeout_message w node)\<rparr>,
       context_after = c, invocations = Suc k, written = []\<rparr>)
   \<and> (\<forall>e k'. should_skip node c = Inr False
        \<and> try_agent w (node\<lparr>status := RUNNING\<rparr>) c k = (Raised e, k')
        \<and> retry_count node < max_retries node \<longrightarrow>
      execute_node w node c k =
        execute_node w (node\<lparr>retry_count := retry_count node + 1, status := PENDING\<rparr>) c k')
   \<and> (\<forall>e k'. should_skip node c = Inr False
        \<and> try_agent w (node\<lparr>status := RUNNING\<rparr>) c k = (Raised e, k')
        \<and> \<not> retry_count node < max_retries node \<longrightarrow>
      execute_node w node c k =
        \<lparr>returned = Inr False,
         node_after = node\<lparr>status := FAILED, error_message := Some e\<rparr>,
         context_after = c, invocations = k', written = []\<rparr>)"
  using timeout_fails_at_once[of node c w k] failure_is_retried[of node c w k]
  by (auto simp: execute_node.simps[of w node c k])

theorem timeout_fails_node_without_retry_witness:
  "execute_node (world_of (\<lambda>nid k i c. TimeoutError))
      ((new_node ''n'' ''web_search'' [])\<lparr>max_retries := 2, timeout_seconds := 1\<rparr>)
      Map.empty 0
   = \<lparr>returned = Inr False,
      node_after = (new_node ''n'' ''web_search'' [])
         \<lparr>max_retries := 2, timeout_seconds := 1, status := FAILED,
          error_message := Some ''Node n timed out after ? seconds''\<rparr>,
      context_after = Map.empty, invocations = 1, written = []\<rparr>"
  using timeout_fails_node_without_retry
    [of "(new_node ''n'' ''web_search'' [])\<lparr>max_retries := 2, timeout_seconds := 1\<rparr>"
        Map.empty "world_of (\<lambda>nid k i c. TimeoutError)" 0]
  by (simp add: example_defs)

text \<open>
  C4 as stated fails. A node whose \<^verbatim>\<open>agent_type\<close> is not registered, with the default
  \<^verbatim>\<open>max_retries = 3\<close> and \<^verbatim>\<open>retry_count = 0\<close>, ends with \<^verbatim>\<open>retry_count == 3\<close>: the failed
  lookup raises a plain \<^verbatim>\<open>Exception\<close> inside the \<^verbatim>\<open>try\<close>, and the handler retries it.
\<close>

theorem unknown_agent_is_retried_counterexample:
  "retry_count (node_after (execute_node (world_of (\<lambda>nid k i c. Returned ok_result))
      (new_node ''n'' ''no_such_agent'' []) Map.empty 0)) = 3
   \<and> retry_count (new_node ''n'' ''no_such_agent'' []) = 0"
  by (simp add: execute_node.simps example_defs)

text \<open>
  C4, amended. If the registry has no agent for \<^verbatim>\<open>node.agent_type\<close> and the node is not
  skipped by its conditions, \<^verbatim>\<open>execute_node\<close> returns \<^verbatim>\<open>False\<close> and leaves the node \<^verbatim>\<open>FAILED\<close>
  with the error \<^verbatim>\<open>Agent not found: <agent_type>\<close>; no agent is called and the context is
  unchanged. The lookup goes through the retry policy: it is repeated while
  \<^verbatim>\<open>retry_count < max_retries\<close>, so \<^verbatim>\<open>retry_count\<close> ends at the larger of its initial value
  and \<^verbatim>\<open>max_retries\<close>.
\<close>

theorem unknown_agent_fails_after_retries:
  "\<not> get_agent w (agent_type node) (agent_config node) \<Longrightarrow> should_skip node c = Inr False \<Longrightarrow>
   execute_node w node c k =
     \<lparr>returned = Inr False,
      node_after = node\<lparr>retry_count := max (retry_count node) (max_retries node), status := FAILED,
                         error_message := Some (''Agent not found: '' @ agent_type node)\<rparr>,
      context_after = c, invocations = k, written = []\<rparr>"
  by (rule agent_not_found_retries)

theorem unknown_agent_fails_after_retries_witness:
  "execute_node (world_of (\<lambda>nid k i c. Returned ok_result))
      (new_node ''n'' ''no_such_agent'' []) Map.empty 0
   = \<lparr>returned = Inr False,
      node_after = (new_node ''n'' ''no_such_agent'' [])
         \<lparr>retry_count := 3, status := FAILED,
          error_message := Some ''Agent not found: no_such_agent''\<rparr>,
      context_after = Map.empty, invocations = 0, written = []\<rparr>"
  using unknown_agent_fails_after_retries
    [of "world_of (\<lambda>nid k i c. Returned ok_result)" "new_node ''n'' ''no_such_agent'' []"
        Map.empty 0]
  by (simp add: example_defs)

text \<open>
  C5. \<^verbatim>\<open>execute_node\<close> terminates: the model is a total function, its recursion accepted
  with the measure \<^verbatim>\<open>max_retries - retry_count\<close>, which the retry decreases. For a node with
  \<^verbatim>\<open>retry_count = 0\<close> (and \<^verbatim>\<open>max_retries\<close> non-negative, as the data model has it) one launch
  calls the agent at most \<^verbatim>\<open>max_retries + 1\<close> times. The only exception that can leave the
  call is the one of \<^verbatim>\<open>should_skip\<close>.
\<close>

theorem execute_node_attempts_bounded:
  "retry_count node = 0 \<Longrightarrow> 0 \<le> max_retries node \<Longrightarrow>
   int (invocations (execute_node w node c 0)) \<le> max_retries node + 1
   \<and> (\<forall>e. returned (execute_node w node c 0) = Inl e \<longrightarrow> should_skip node c = Inl e)"
  using invocations_bound[of w node c 0] returned_exception[of w node c 0] by auto

theorem execute_node_attempts_bounded_witness:
  "retry_count ((new_node ''n'' ''web_search'' [])\<lparr>max_retries := 2\<rparr>) = 0
   \<and> int (invocations (execute_node (world_of (\<lambda>nid k i c. Raised ''boom''))
        ((new_node ''n'' ''web_search'' [])\<lparr>max_retries := 2\<rparr>) Map.empty 0)) \<le> 2 + 1
   \<and> invocations (execute_node (world_of (\<lambda>nid k i c. Raised ''boom''))
        ((new_node ''n'' ''web_search'' [])\<lparr>max_retries := 2\<rparr>) Map.empty 0) = 3"
  using execute_node_attempts_bounded
    [of "(new_node ''n'' ''web_search'' [])\<lparr>max_retries := 2\<rparr>"
        "world_of (\<lambda>nid k i c. Raised ''boom'')" Map.empty]
  by (simp add: execute_node.simps example_defs)


section \<open>Properties of the DAG and of its execution order\<close>

subsection \<open>Construction\<close>

lemma map_fst_update:
  "map fst (AList.update k v al) = (if k \<in> fst ` set al then map fst al else map fst al @ [k])"
  by (induction al) auto

lemma add_node_inv:
  assumes "dag_inv dag"
  shows "dag_inv (add_node node dag)"
proof -
  from assms have d: "distinct (map fst (nodes dag))"
    and k: "map fst (edges dag) = map fst (nodes dag)"
    and m: "\<forall>k node. map_of (nodes dag) k = Some node \<longrightarrow>
             node_id node = k \<and> map_of (edges dag) k = Some (dependencies node)"
    by (simp_all add: dag_inv_def)
  have ks: "fst ` set (edges dag) = fst ` set (nodes dag)" using k by (metis set_map)
  show ?thesis
    unfolding dag_inv_def add_node_def using d k m ks
    by (simp add: distinct_update update_conv' map_fst_update)
qed

lemma fold_add_node_inv: "dag_inv dag \<Longrightarrow> dag_inv (fold add_node ns dag)"
  by (induction ns arbitrary: dag) (simp_all add: add_node_inv)

lemma dag_inv_init: "dag_inv (WorkflowDAG_init ns)"
  unfolding WorkflowDAG_init_def by (rule fold_add_node_inv) (simp add: dag_inv_def)

subsection \<open>The level loop\<close>

lemma current_level_subset: "set (current_level dag rem cs) \<subseteq> set rem"
  by (auto simp: current_level_def)

lemma current_level_deps:
  "n \<in> set (current_level dag rem cs) \<Longrightarrow> set (deps_of dag n) \<subseteq> cs"
  by (auto simp: current_level_def deps_of_def can_execute_def list_all_iff
           split: option.splits if_splits)

lemma build_levels_partition:
  "build_levels dag rem cs = Inr levels \<Longrightarrow> distinct rem \<Longrightarrow>
   distinct (concat levels) \<and> set (concat levels) = set rem \<and> [] \<notin> set levels"
proof (induction dag rem cs arbitrary: levels rule: build_levels.induct)
  case (1 dag rem cs)
  let ?lvl = "current_level dag rem cs"
  let ?rem' = "filter (\<lambda>n. n \<notin> set ?lvl) rem"
  show ?case
  proof (cases "rem = []")
    case True
    with "1.prems" show ?thesis by (simp add: build_levels.simps)
  next
    case False
    show ?thesis
    proof (cases "?lvl = []")
      case True
      with False "1.prems" show ?thesis by (simp add: build_levels.simps)
    next
      case ne: False
      from "1.prems"(1) False ne obtain ls where
        ls: "build_levels dag ?rem' (cs \<union> set ?lvl) = Inr ls" and lv: "levels = ?lvl # ls"
        by (subst (asm) build_levels.simps) (auto split: sum.splits)
      have d': "distinct ?rem'" using "1.prems"(2) by simp
      from "1.IH"[OF False ne ls d']
      have ih: "distinct (concat ls)" "set (concat ls) = set ?rem'" "[] \<notin> set ls" by auto
      have dl: "distinct ?lvl" using "1.prems"(2) by (simp add: current_level_def)
      have sub: "set ?lvl \<subseteq> set rem" by (rule current_level_subset)
      have "set ?lvl \<inter> set (concat ls) = {}" using ih(2) by auto
      moreover have "set ?lvl \<union> set (concat ls) = set rem" using ih(2) sub by auto
      ultimately show ?thesis using lv ih dl ne by simp
    qed
  qed
qed

lemma build_levels_deps:
  "build_levels dag rem cs = Inr levels \<Longrightarrow> i < length levels \<Longrightarrow> n \<in> set (levels ! i) \<Longrightarrow>
   set (deps_of dag n) \<subseteq> cs \<union> \<Union> (set ` set (take i levels))"
proof (induction dag rem cs arbitrary: levels i rule: build_levels.induct)
  case (1 dag rem cs)
  let ?lvl = "current_level dag rem cs"
  let ?rem' = "filter (\<lambda>n. n \<notin> set ?lvl) rem"
  show ?case
  proof (cases "rem = []")
    case True
    with "1.prems" show ?thesis by (simp add: build_levels.simps)
  next
    case False
    show ?thesis
    proof (cases "?lvl = []")
      case True
      with False "1.prems" show ?thesis by (simp add: build_levels.simps)
    next
      case ne: False
      from "1.prems"(1) False ne obtain ls where
        ls: "build_levels dag ?rem' (cs \<union> set ?lvl) = Inr ls" and lv: "levels = ?lvl # ls"
        by (subst (asm) build_levels.simps) (auto split: sum.splits)
      show ?thesis
      proof (cases i)
        case 0
        with "1.prems"(3) lv have "n \<in> set ?lvl" by simp
        then have "set (deps_of dag n) \<subseteq> cs" by (rule current_level_deps)
        then show ?thesis by auto
      next
        case (Suc j)
        with "1.prems"(2,3) lv have j: "j < length ls" "n \<in> set (ls ! j)" by auto
        from "1.IH"[OF False ne ls j]
        have "set (deps_of dag n) \<subseteq> cs \<union> set ?lvl \<union> \<Union> (set ` set (take j ls))" .
        then show ?thesis using Suc lv by auto
      qed
    qed
  qed
qed

lemma first_level:
  assumes "all_pending dag" "build_levels dag (node_ids dag) {} = Inr levels" "node_ids dag \<noteq> []"
  shows "hd levels = filter (\<lambda>n. deps_of dag n = []) (node_ids dag)"
proof -
  have cl: "current_level dag (node_ids dag) {} = filter (\<lambda>n. deps_of dag n = []) (node_ids dag)"
    unfolding current_level_def
  proof (rule filter_cong[OF refl])
    fix n assume "n \<in> set (node_ids dag)"
    then obtain node where m: "map_of (nodes dag) n = Some node"
      by (auto simp: node_ids_def dest: weak_map_of_SomeI)
    then have "(n, node) \<in> set (nodes dag)" by (rule map_of_SomeD)
    then have "status node = PENDING" using assms(1) by (auto simp: all_pending_def list_all_iff)
    then show "(case map_of (nodes dag) n of None \<Rightarrow> False | Some node \<Rightarrow> can_execute node {})
               = (deps_of dag n = [])"
      using m by (cases "dependencies node") (simp_all add: can_execute_def deps_of_def)
  qed
  from assms(2,3) have "\<exists>ls. levels = current_level dag (node_ids dag) {} # ls"
    by (subst (asm) build_levels.simps) (auto split: sum.splits if_splits)
  with cl show ?thesis by auto
qed

subsection \<open>Kahn's algorithm finds a topological order\<close>

lemma graph_deps_Cons:
  "graph_deps ((k, ds) # es) n = (if n = k then ds else graph_deps es n)"
  by (simp add: graph_deps_def)

lemma kahn_fold:
  "distinct (map fst es) \<Longrightarrow>
   fold (kahn_visit cur) es (deg, q) =
     (\<lambda>n. if n \<in> fst ` set es \<and> cur \<in> set (graph_deps es n) then deg n - 1 else deg n,
      q @ filter (\<lambda>n. cur \<in> set (graph_deps es n) \<and> deg n - 1 = 0) (map fst es))"
proof (induction es arbitrary: deg q)
  case Nil
  then show ?case by simp
next
  case (Cons e es)
  obtain k ds where e: "e = (k, ds)" by (cases e)
  have kn: "k \<notin> fst ` set es" and d: "distinct (map fst es)" using Cons.prems e by auto
  define deg1 where "deg1 = (if cur \<in> set ds then deg(k := deg k - 1) else deg)"
  define q1 where "q1 = (if cur \<in> set ds \<and> deg k - 1 = 0 then q @ [k] else q)"
  have v: "kahn_visit cur e (deg, q) = (deg1, q1)"
    by (simp add: kahn_visit_def e deg1_def q1_def)
  have f1: "(\<lambda>n. if n \<in> fst ` set es \<and> cur \<in> set (graph_deps es n) then deg1 n - 1 else deg1 n)
          = (\<lambda>n. if n \<in> fst ` set (e # es) \<and> cur \<in> set (graph_deps (e # es) n) then deg n - 1 else deg n)"
  proof
    fix n
    show "(if n \<in> fst ` set es \<and> cur \<in> set (graph_deps es n) then deg1 n - 1 else deg1 n)
        = (if n \<in> fst ` set (e # es) \<and> cur \<in> set (graph_deps (e # es) n) then deg n - 1 else deg n)"
    proof (cases "n = k")
      case True
      with kn show ?thesis by (simp add: e graph_deps_Cons deg1_def)
    next
      case False
      then show ?thesis by (simp add: e graph_deps_Cons deg1_def)
    qed
  qed
  have f2: "filter (\<lambda>n. cur \<in> set (graph_deps es n) \<and> deg1 n - 1 = 0) (map fst es)
          = filter (\<lambda>n. cur \<in> set (graph_deps (e # es) n) \<and> deg n - 1 = 0) (map fst es)"
  proof (rule filter_cong[OF refl])
    fix n assume "n \<in> set (map fst es)"
    then have "n \<noteq> k" using kn by auto
    then show "(cur \<in> set (graph_deps es n) \<and> deg1 n - 1 = 0)
             = (cur \<in> set (graph_deps (e # es) n) \<and> deg n - 1 = 0)"
      by (simp add: e graph_deps_Cons deg1_def)
  qed
  have f3: "q1 @ filter (\<lambda>n. cur \<in> set (graph_deps (e # es) n) \<and> deg n - 1 = 0) (map fst es)
          = q @ filter (\<lambda>n. cur \<in> set (graph_deps (e # es) n) \<and> deg n - 1 = 0) (map fst (e # es))"
    by (simp add: e graph_deps_Cons q1_def)
  have "fold (kahn_visit cur) (e # es) (deg, q) = fold (kahn_visit cur) es (deg1, q1)"
    using v by simp
  also have "\<dots> = (\<lambda>n. if n \<in> fst ` set es \<and> cur \<in> set (graph_deps es n) then deg1 n - 1 else deg1 n,
      q1 @ filter (\<lambda>n. cur \<in> set (graph_deps es n) \<and> deg1 n - 1 = 0) (map fst es))"
    by (rule Cons.IH[OF d])
  finally show ?case unfolding f1 f2 f3 .
qed


lemma topological_snoc:
  assumes "topological g seen" "set (graph_deps g c) \<inter> fst ` set g \<subseteq> set seen"
  shows "topological g (seen @ [c])"
  unfolding topological_def
proof (intro allI impI)
  fix xs n ys
  assume eq: "seen @ [c] = xs @ n # ys"
  show "set (graph_deps g n) \<inter> fst ` set g \<subseteq> set xs"
  proof (cases ys rule: rev_cases)
    case Nil
    with eq have "xs = seen" "n = c" by auto
    with assms(2) show ?thesis by simp
  next
    case (snoc ys' y)
    with eq have "seen = xs @ n # ys'" by auto
    with assms(1) show ?thesis unfolding topological_def by blast
  qed
qed

lemma kahn_step:
  assumes dk: "distinct (map fst g)" and inv: "kahn_inv g deg seen (cur # queue)"
  shows "kahn_inv g (\<lambda>n. if n \<in> fst ` set g \<and> cur \<in> set (graph_deps g n) then deg n - 1 else deg n)
           (seen @ [cur])
           (queue @ filter (\<lambda>n. cur \<in> set (graph_deps g n) \<and> deg n - 1 = 0) (map fst g))"
proof -
  define K where "K = fst ` set g"
  define D where "D = (\<lambda>n. set (graph_deps g n) \<inter> K)"
  define new where "new = filter (\<lambda>n. cur \<in> set (graph_deps g n) \<and> deg n - 1 = 0) (map fst g)"
  define deg' where "deg' = (\<lambda>n. if n \<in> K \<and> cur \<in> set (graph_deps g n) then deg n - 1 else deg n)"
  from inv have i1: "distinct (seen @ cur # queue)"
    and i2: "set (seen @ cur # queue) \<subseteq> K"
    and i3: "\<And>n. n \<in> K \<Longrightarrow> int (card (D n - set seen)) \<le> deg n"
    and i4: "\<And>n. n \<in> set (seen @ cur # queue) \<Longrightarrow> deg n = 0"
    and i5: "topological g seen"
    unfolding kahn_inv_def K_def D_def by blast+
  have finD: "\<And>n. finite (D n)" by (simp add: D_def)
  have curK: "cur \<in> K" using i2 by simp
  have curnd: "cur \<notin> set seen" using i1 by simp
  have dec: "int (card (D n - set (seen @ [cur]))) = int (card (D n - set seen)) - 1"
    and pos: "1 \<le> deg n"
    if "n \<in> K" "cur \<in> set (graph_deps g n)" for n
  proof -
    have m: "cur \<in> D n - set seen" using that curK curnd by (simp add: D_def)
    have f: "finite (D n - set seen)" using finD by simp
    have "D n - set (seen @ [cur]) = (D n - set seen) - {cur}" by auto
    then have "card (D n - set (seen @ [cur])) = card (D n - set seen) - 1"
      using m f by simp
    moreover have "1 \<le> card (D n - set seen)" using m f
      by (metis One_nat_def Suc_leI card_gt_0_iff empty_iff)
    ultimately show "int (card (D n - set (seen @ [cur]))) = int (card (D n - set seen)) - 1"
      by simp
    from \<open>1 \<le> card (D n - set seen)\<close> i3[OF that(1)] show "1 \<le> deg n" by simp
  qed
  have newK: "set new \<subseteq> K" by (auto simp: new_def K_def)
  have newd: "distinct new" using dk by (simp add: new_def)
  have newfresh: "n \<notin> set (seen @ cur # queue)" if "n \<in> set new" for n
  proof
    assume "n \<in> set (seen @ cur # queue)"
    then have "deg n = 0" by (rule i4)
    moreover have "1 \<le> deg n" using that newK pos by (auto simp: new_def)
    ultimately show False by simp
  qed
  have g1: "distinct ((seen @ [cur]) @ queue @ new)"
    using i1 newd newfresh by auto
  have g2: "set ((seen @ [cur]) @ queue @ new) \<subseteq> K" using i2 newK by auto
  have g3: "int (card (D n - set (seen @ [cur]))) \<le> deg' n" if "n \<in> K" for n
  proof (cases "cur \<in> set (graph_deps g n)")
    case True
    with dec[OF that True] i3[OF that] that show ?thesis by (simp add: deg'_def)
  next
    case False
    have "card (D n - set (seen @ [cur])) \<le> card (D n - set seen)"
      by (rule card_mono) (use finD in auto)
    with False i3[OF that] show ?thesis by (simp add: deg'_def)
  qed
  have g4: "deg' n = 0" if "n \<in> set ((seen @ [cur]) @ queue @ new)" for n
  proof (cases "n \<in> set new")
    case True
    then show ?thesis using newK by (auto simp: new_def deg'_def)
  next
    case False
    with that have old: "n \<in> set (seen @ cur # queue)" by auto
    then have z: "deg n = 0" by (rule i4)
    have "\<not> (n \<in> K \<and> cur \<in> set (graph_deps g n))" using pos[of n] z by auto
    with z show ?thesis by (simp add: deg'_def)
  qed
  have "int (card (D cur - set seen)) \<le> 0" using i3[OF curK] i4[of cur] by simp
  then have "D cur - set seen = {}" using finD by simp
  then have "set (graph_deps g cur) \<inter> fst ` set g \<subseteq> set seen" by (auto simp: D_def K_def)
  with i5 have g5: "topological g (seen @ [cur])" by (rule topological_snoc)
  show ?thesis
    using g1 g2 g3 g4 g5 unfolding kahn_inv_def K_def D_def new_def deg'_def by blast
qed


lemma kahn_loop_order:
  "distinct (map fst g) \<Longrightarrow> kahn_inv g deg seen queue \<Longrightarrow> p = length seen \<Longrightarrow>
   kahn_loop g deg queue p = length g \<Longrightarrow>
   \<exists>order. distinct order \<and> set order = fst ` set g \<and> topological g order"
proof (induction g deg queue p arbitrary: seen rule: kahn_loop.induct)
  case (1 graph in_degree processed)
  from "1.prems"(2) have d: "distinct seen" and sub: "set seen \<subseteq> fst ` set graph"
    and t: "topological graph seen"
    by (simp_all add: kahn_inv_def)
  have "card (fst ` set graph) = length graph"
    using "1.prems"(1) by (metis distinct_card length_map set_map)
  moreover have "card (set seen) = length seen" using d by (rule distinct_card)
  moreover have "length seen = length graph" using "1.prems"(3,4) by simp
  ultimately have "card (set seen) = card (fst ` set graph)" by simp
  with sub have "set seen = fst ` set graph" by (intro card_subset_eq) auto
  with d t show ?case by blast
next
  case (2 graph in_degree current queue processed)
  let ?deg' = "\<lambda>n. if n \<in> fst ` set graph \<and> current \<in> set (graph_deps graph n)
                    then in_degree n - 1 else in_degree n"
  let ?q' = "queue @ filter (\<lambda>n. current \<in> set (graph_deps graph n) \<and> in_degree n - 1 = 0)
                      (map fst graph)"
  have f: "fold (kahn_visit current) graph (in_degree, queue) = (?deg', ?q')"
    using "2.prems"(1) by (rule kahn_fold)
  have inv': "kahn_inv graph ?deg' (seen @ [current]) ?q'"
    using "2.prems"(1,2) by (rule kahn_step)
  have l: "kahn_loop graph ?deg' ?q' (processed + 1) = length graph"
    using "2.prems"(4) f by (simp add: kahn_loop.simps(2))
  show ?case
    using "2.IH"[OF f[symmetric] "2.prems"(1) inv' _ l] "2.prems"(3) by simp
qed

lemma in_degree_inner:
  "fold (\<lambda>dep d. if P dep then d(k := d k + 1) else d) ds d
   = d(k := d k + int (length (filter P ds)))"
  by (induction ds arbitrary: d) (auto simp: fun_eq_iff)

lemma in_degree_outer:
  "distinct (map fst es) \<Longrightarrow>
   fold (\<lambda>(k, ds) d. fold (\<lambda>dep d. if P dep then d(k := d k + 1) else d) ds d) es d n
   = d n + int (length (filter P (graph_deps es n)))"
proof (induction es arbitrary: d)
  case Nil
  then show ?case by (simp add: graph_deps_def)
next
  case (Cons e es)
  obtain k ds where e: "e = (k, ds)" by (cases e)
  have kn: "k \<notin> fst ` set es" and dd: "distinct (map fst es)" using Cons.prems e by auto
  have z: "graph_deps es k = []" using kn
    by (auto simp: graph_deps_def split: option.splits dest!: map_of_SomeD) (metis fst_conv imageI)
  show ?case
    using Cons.IH[OF dd, of "d(k := d k + int (length (filter P ds)))"] z
    by (simp add: e in_degree_inner graph_deps_Cons)
qed

lemma dag_in_degree_eq:
  "distinct (map fst (edges dag)) \<Longrightarrow>
   dag_in_degree dag n
   = int (length (filter (\<lambda>dep. dep \<in> set (map fst (nodes dag))) (graph_deps (edges dag) n)))"
  unfolding dag_in_degree_def by (simp add: in_degree_outer)

lemma validate_order:
  assumes "dag_inv dag" "validate dag"
  shows "\<exists>order. distinct order \<and> set order = set (node_ids dag) \<and> topological (edges dag) order"
proof -
  let ?g = "edges dag"
  let ?K = "fst ` set ?g"
  from assms(1) have dk: "distinct (map fst ?g)" and keys: "map fst ?g = map fst (nodes dag)"
    by (simp_all add: dag_inv_def)
  have K: "set (map fst (nodes dag)) = ?K" using keys by (metis set_map)
  let ?q = "filter (\<lambda>n. dag_in_degree dag n = 0) (map fst (nodes dag))"
  have c: "int (card (set (graph_deps ?g n) \<inter> ?K - set [])) \<le> dag_in_degree dag n" for n
  proof -
    have "set (graph_deps ?g n) \<inter> ?K = set (filter (\<lambda>dep. dep \<in> ?K) (graph_deps ?g n))"
      by auto
    then have "card (set (graph_deps ?g n) \<inter> ?K) \<le> length (filter (\<lambda>dep. dep \<in> ?K) (graph_deps ?g n))"
      by (simp only: card_length)
    then show ?thesis using dag_in_degree_eq[OF dk, of n] K by simp
  qed
  have inv: "kahn_inv ?g (dag_in_degree dag) [] ?q"
    unfolding kahn_inv_def using dk keys K c by (auto simp: topological_def)
  have "kahn_loop ?g (dag_in_degree dag) ?q (length ([]::string list)) = length ?g"
    using assms(2) keys by (simp add: validate_def) (metis length_map)
  from kahn_loop_order[OF dk inv refl this] K show ?thesis by (simp add: node_ids_def)
qed

lemma deps_of_graph_deps: "dag_inv dag \<Longrightarrow> graph_deps (edges dag) n = deps_of dag n"
proof -
  assume inv: "dag_inv dag"
  show ?thesis
  proof (cases "map_of (nodes dag) n")
    case None
    then have "n \<notin> fst ` set (nodes dag)" by (simp add: map_of_eq_None_iff)
    moreover have "fst ` set (edges dag) = fst ` set (nodes dag)"
      using inv by (metis dag_inv_def set_map)
    ultimately have "map_of (edges dag) n = None" by (simp add: map_of_eq_None_iff)
    with None show ?thesis by (simp add: graph_deps_def deps_of_def)
  next
    case (Some node)
    with inv have "map_of (edges dag) n = Some (dependencies node)" by (simp add: dag_inv_def)
    with Some show ?thesis by (simp add: graph_deps_def deps_of_def)
  qed
qed

lemma build_levels_progress:
  "all_pending dag \<Longrightarrow> set order = set (node_ids dag) \<Longrightarrow>
   \<forall>xs n ys. order = xs @ n # ys \<longrightarrow> set (deps_of dag n) \<subseteq> set xs \<Longrightarrow>
   set rem \<subseteq> set (node_ids dag) \<Longrightarrow> set (node_ids dag) - set rem \<subseteq> cs \<Longrightarrow>
   \<exists>levels. build_levels dag rem cs = Inr levels"
proof (induction dag rem cs rule: build_levels.induct)
  case (1 dag rem cs)
  let ?lvl = "current_level dag rem cs"
  let ?rem' = "filter (\<lambda>n. n \<notin> set ?lvl) rem"
  show ?case
  proof (cases "rem = []")
    case True
    then show ?thesis by (simp add: build_levels.simps)
  next
    case False
    then obtain r where "r \<in> set rem" by (cases rem) auto
    then have "\<exists>x \<in> set order. x \<in> set rem" using "1.prems"(2,4) by auto
    from split_list_first_prop[OF this]
    obtain xs n ys where o: "order = xs @ n # ys" and nr: "n \<in> set rem"
      and first: "\<forall>x \<in> set xs. x \<notin> set rem"
      by blast
    have "set xs \<subseteq> set (node_ids dag)" using o "1.prems"(2) by auto
    with first "1.prems"(5) have "set xs \<subseteq> cs" by auto
    with "1.prems"(3) o have deps: "set (deps_of dag n) \<subseteq> cs" by blast
    have "n \<in> set (node_ids dag)" using nr "1.prems"(4) by auto
    then obtain node where m: "map_of (nodes dag) n = Some node"
      by (auto simp: node_ids_def dest: weak_map_of_SomeI)
    then have "(n, node) \<in> set (nodes dag)" by (rule map_of_SomeD)
    then have "status node = PENDING"
      using "1.prems"(1) by (auto simp: all_pending_def list_all_iff)
    with deps m have "can_execute node cs"
      by (auto simp: can_execute_def deps_of_def list_all_iff)
    with m nr have "n \<in> set ?lvl" by (simp add: current_level_def)
    then have ne: "?lvl \<noteq> []" by auto
    have sub: "set ?rem' \<subseteq> set (node_ids dag)" using "1.prems"(4) by auto
    have cov: "set (node_ids dag) - set ?rem' \<subseteq> cs \<union> set ?lvl" using "1.prems"(5) by auto
    from "1.IH"[OF False ne "1.prems"(1,2,3) sub cov]
    obtain ls where "build_levels dag ?rem' (cs \<union> set ?lvl) = Inr ls" by blast
    with False ne show ?thesis by (subst build_levels.simps) simp
  qed
qed


lemma diamond_nodes:
  "nodes diamond =
     [(''A'', new_node ''A'' ''web_search'' []), (''B'', new_node ''B'' ''text_writing'' [''A'']),
      (''C'', new_node ''C'' ''data_analysis'' [''A'']),
      (''D'', new_node ''D'' ''email_sender'' [''B'', ''C''])]"
  "edges diamond = [(''A'', []), (''B'', [''A'']), (''C'', [''A'']), (''D'', [''B'', ''C''])]"
  by (simp_all add: diamond_def WorkflowDAG_init_def add_node_def new_node_def)

lemma build_levels_returns:
  assumes "dag_inv dag" "all_pending dag" "deps_declared dag" "validate dag"
  shows "\<exists>levels. build_levels dag (node_ids dag) {} = Inr levels"
proof -
  from validate_order[OF assms(1,4)] obtain order where
    o: "distinct order" "set order = set (node_ids dag)" "topological (edges dag) order"
    by blast
  have K: "fst ` set (edges dag) = set (node_ids dag)"
    using assms(1) by (metis dag_inv_def node_ids_def set_map)
  have closed: "set (deps_of dag n) \<subseteq> set (node_ids dag)" for n
  proof (cases "map_of (nodes dag) n")
    case None
    then show ?thesis by (simp add: deps_of_def)
  next
    case (Some node)
    then have "(n, node) \<in> set (nodes dag)" by (rule map_of_SomeD)
    with assms(3) have "set (dependencies node) \<subseteq> set (node_ids dag)"
      by (auto simp: deps_declared_def list_all_iff)
    with Some show ?thesis by (simp add: deps_of_def)
  qed
  have topo: "\<forall>xs n ys. order = xs @ n # ys \<longrightarrow> set (deps_of dag n) \<subseteq> set xs"
  proof (intro allI impI)
    fix xs n ys assume "order = xs @ n # ys"
    with o(3) have "set (graph_deps (edges dag) n) \<inter> fst ` set (edges dag) \<subseteq> set xs"
      unfolding topological_def by blast
    then show "set (deps_of dag n) \<subseteq> set xs"
      using closed[of n] K deps_of_graph_deps[OF assms(1), of n] by auto
  qed
  show ?thesis
    using assms(2) o(2) topo by (rule build_levels_progress) auto
qed

lemma execution_order_partition:
  assumes "dag_inv dag" "all_pending dag" "deps_declared dag" "validate dag"
  shows "\<exists>levels. get_execution_order dag = Inr levels
           \<and> distinct (concat levels) \<and> set (concat levels) = set (node_ids dag)"
proof -
  from build_levels_returns[OF assms]
  obtain levels where b: "build_levels dag (node_ids dag) {} = Inr levels" by blast
  have g: "get_execution_order dag = Inr levels"
    using b assms(4) by (simp add: get_execution_order_def node_ids_def)
  have d: "distinct (node_ids dag)" using assms(1) by (simp add: dag_inv_def node_ids_def)
  from build_levels_partition[OF b d] g show ?thesis by blast
qed

text \<open>
  C6. For a DAG that keeps the invariant of the class, whose nodes are all \<^verbatim>\<open>PENDING\<close>, whose
  dependencies are all declared nodes and that \<^verbatim>\<open>validate\<close> accepts,
  \<^verbatim>\<open>get_execution_order\<close> returns a list of levels: the levels are not empty, they are
  pairwise disjoint and their union is the set of node IDs; level 0 is made of exactly the
  nodes without dependencies; and every dependency of a node of level \<open>i\<close> is in a level
  before \<open>i\<close>, so no node depends on a node of its own level or of a later one.
\<close>

theorem get_execution_order_levels:
  assumes "dag_inv dag" "all_pending dag" "deps_declared dag" "validate dag"
  shows "\<exists>levels. get_execution_order dag = Inr levels
           \<and> distinct (concat levels) \<and> set (concat levels) = set (node_ids dag)
           \<and> [] \<notin> set levels
           \<and> (node_ids dag \<noteq> [] \<longrightarrow>
                levels \<noteq> [] \<and> hd levels = filter (\<lambda>n. deps_of dag n = []) (node_ids dag))
           \<and> (\<forall>i < length levels. \<forall>n \<in> set (levels ! i).
                set (deps_of dag n) \<subseteq> \<Union> (set ` set (take i levels)))"
proof -
  from build_levels_returns[OF assms]
  obtain levels where b: "build_levels dag (node_ids dag) {} = Inr levels" by blast
  have g: "get_execution_order dag = Inr levels"
    using b assms(4) by (simp add: get_execution_order_def node_ids_def)
  have d: "distinct (node_ids dag)" using assms(1) by (simp add: dag_inv_def node_ids_def)
  from build_levels_partition[OF b d]
  have p: "distinct (concat levels)" "set (concat levels) = set (node_ids dag)" "[] \<notin> set levels"
    by auto
  have l0: "node_ids dag \<noteq> [] \<longrightarrow>
              levels \<noteq> [] \<and> hd levels = filter (\<lambda>n. deps_of dag n = []) (node_ids dag)"
    using first_level[OF assms(2) b] p(2) by auto
  have dp: "\<forall>i < length levels. \<forall>n \<in> set (levels ! i).
              set (deps_of dag n) \<subseteq> \<Union> (set ` set (take i levels))"
    using build_levels_deps[OF b] by auto
  from g p l0 dp show ?thesis by blast
qed

lemmas dag_eval = get_execution_order_def validate_def dag_in_degree_def kahn_loop.simps
  kahn_visit_def build_levels.simps current_level_def can_execute_def new_node_def

theorem get_execution_order_levels_witness:
  "all_pending diamond \<and> deps_declared diamond \<and> validate diamond
   \<and> get_execution_order diamond = Inr [[''A''], [''B'', ''C''], [''D'']]"
  using get_execution_order_levels[of diamond] dag_inv_init[of "[new_node ''A'' ''web_search'' [], new_node ''B'' ''text_writing'' [''A''],
      new_node ''C'' ''data_analysis'' [''A''], new_node ''D'' ''email_sender'' [''B'', ''C'']]"]
  by (simp add: diamond_nodes all_pending_def deps_declared_def node_ids_def dag_eval)


section \<open>Properties of the engine\<close>

subsection \<open>What a call of the executor leaves behind\<close>

lemma exec_post_cong:
  "node_id n' = node_id n \<Longrightarrow> conditions n' = conditions n \<Longrightarrow> exec_post n' c r \<Longrightarrow> exec_post n c r"
  by (simp add: exec_post_def)

lemma execute_node_post: "exec_post node c (execute_node w node c k)"
proof (induction w node c k rule: execute_node.induct)
  case (1 w node c k)
  show ?case
  proof (cases "should_skip node c")
    case (Inl e)
    then show ?thesis by (simp add: execute_node.simps exec_post_def)
  next
    case (Inr skip)
    show ?thesis
    proof (cases skip)
      case True
      with Inr show ?thesis by (simp add: execute_node.simps exec_post_def)
    next
      case False
      obtain a k' where t: "try_agent w (node\<lparr>status := RUNNING\<rparr>) c k = (a, k')"
        by (cases "try_agent w (node\<lparr>status := RUNNING\<rparr>) c k")
      show ?thesis
      proof (cases a)
        case TimeoutError
        with Inr False t show ?thesis by (simp add: execute_node.simps exec_post_def)
      next
        case (Returned r)
        with Inr False t show ?thesis by (auto simp: execute_node.simps exec_post_def)
      next
        case (Raised msg)
        show ?thesis
        proof (cases "retry_count node < max_retries node")
          case lt: True
          let ?n = "node\<lparr>retry_count := retry_count node + 1, status := PENDING\<rparr>"
          have e: "execute_node w node c k = execute_node w ?n c k'"
            using Inr False t Raised lt by (subst execute_node.simps) simp
          have "exec_post ?n c (execute_node w ?n c k')"
            using "1.IH"[OF Inr False t[symmetric] Raised lt] .
          then have "exec_post node c (execute_node w ?n c k')"
            by (rule exec_post_cong[rotated 2]) simp_all
          with e show ?thesis by simp
        next
          case False
          with Inr \<open>\<not> skip\<close> t Raised show ?thesis by (simp add: execute_node.simps exec_post_def)
        qed
      qed
    qed
  qed
qed

lemma exec_post_task: "exec_post node c r \<Longrightarrow> task_post node c r"
  by (auto simp: exec_post_def task_post_def)

lemma tracking_post: "task_post node c (execute_node_with_tracking w node c)"
proof -
  have p: "task_post node c (execute_node w node c 0)"
    by (rule exec_post_task) (rule execute_node_post)
  then have "task_post node c ((execute_node w node c 0)\<lparr>returned := Inl e\<rparr>)" for e
    by (simp add: task_post_def)
  with p show ?thesis
    by (simp add: execute_node_with_tracking_def task_post_def split: option.splits sum.splits)
qed


lemma map_of_keys: "map_of al k = Some v \<Longrightarrow> k \<in> fst ` set al"
  by (metis domI dom_map_of_conv_image_fst)

lemma keys_map_of: "k \<in> fst ` set al \<Longrightarrow> \<exists>v. map_of al k = Some v"
  by (metis domD dom_map_of_conv_image_fst)

lemma own_ids_update:
  "own_ids ns \<Longrightarrow> node_id n = k \<Longrightarrow> own_ids (AList.update k n ns)"
  by (induction ns) (auto simp: own_ids_def)

lemma own_ids_lookup: "own_ids ns \<Longrightarrow> map_of ns k = Some n \<Longrightarrow> node_id n = k"
  by (auto simp: own_ids_def list_all_iff dest!: map_of_SomeD)

lemma key_inj [simp]:
  "(output_key a = output_key b) = (a = b)"
  "(metadata_key a = metadata_key b) = (a = b)"
  "output_key a \<noteq> metadata_key b"
  "metadata_key a \<noteq> output_key b"
proof -
  show "(output_key a = output_key b) = (a = b)" by (simp add: output_key_def)
  show "(metadata_key a = metadata_key b) = (a = b)" by (simp add: metadata_key_def)
  have g: "x @ ''_output'' \<noteq> y @ ''_metadata''" for x y :: string
  proof
    assume "x @ ''_output'' = y @ ''_metadata''"
    then have "last (x @ ''_output'') = last (y @ ''_metadata'')" by (rule arg_cong)
    then show False by simp
  qed
  show "output_key a \<noteq> metadata_key b" using g[of a b] by (simp add: output_key_def metadata_key_def)
  show "metadata_key a \<noteq> output_key b" using g[of b a] by (simp add: output_key_def metadata_key_def)
qed

subsection \<open>One task, the tasks of a level, the results\<close>

lemma run_task_fields:
  assumes "run_task w nid node st = (st1, res)" "map_of (dag_nodes st) nid = Some node"
  shows "completed_nodes st1 = completed_nodes st" "failed_nodes st1 = failed_nodes st"
    "map fst (dag_nodes st1) = map fst (dag_nodes st)" "launched st1 = launched st @ [nid]"
    "\<And>k. k \<noteq> nid \<Longrightarrow> map_of (dag_nodes st1) k = map_of (dag_nodes st) k"
proof -
  have k: "nid \<in> fst ` set (dag_nodes st)" using assms(2) by (rule map_of_keys)
  have st1: "st1 = st\<lparr>dag_nodes := AList.update nid
            (node_after (execute_node_with_tracking w node (run_context st))) (dag_nodes st),
         run_context := context_after (execute_node_with_tracking w node (run_context st)),
         launched := launched st @ [nid],
         assigned := assigned st @ written (execute_node_with_tracking w node (run_context st))\<rparr>"
    using assms(1) by (simp add: run_task_def)
  show "completed_nodes st1 = completed_nodes st" "failed_nodes st1 = failed_nodes st"
    "launched st1 = launched st @ [nid]"
    by (simp_all add: st1)
  show "map fst (dag_nodes st1) = map fst (dag_nodes st)"
    using k by (simp add: st1 map_fst_update)
  show "\<And>k. k \<noteq> nid \<Longrightarrow> map_of (dag_nodes st1) k = map_of (dag_nodes st) k"
    by (simp add: st1 update_conv')
qed

lemma run_task_node:
  assumes "run_task w nid node st = (st1, res)" "map_of (dag_nodes st) nid = Some node"
    "own_ids (dag_nodes st)"
  shows "own_ids (dag_nodes st1)"
    and "\<exists>n. map_of (dag_nodes st1) nid = Some n \<and>
             (res = Inr True \<longrightarrow> status n = COMPLETED \<or> status n = SKIPPED) \<and>
             (res = Inr False \<longrightarrow> status n = FAILED)"
proof -
  let ?r = "execute_node_with_tracking w node (run_context st)"
  have p: "task_post node (run_context st) ?r" by (rule tracking_post)
  have id: "node_id node = nid" using assms(3,2) by (rule own_ids_lookup)
  have n1: "dag_nodes st1 = AList.update nid (node_after ?r) (dag_nodes st)" and res: "res = returned ?r"
    using assms(1) by (auto simp: run_task_def)
  show "own_ids (dag_nodes st1)"
    unfolding n1 using assms(3) p id by (intro own_ids_update) (simp_all add: task_post_def)
  show "\<exists>n. map_of (dag_nodes st1) nid = Some n \<and>
             (res = Inr True \<longrightarrow> status n = COMPLETED \<or> status n = SKIPPED) \<and>
             (res = Inr False \<longrightarrow> status n = FAILED)"
    unfolding n1 res using p by (simp add: update_conv' task_post_def)
qed

lemma run_task_context:
  assumes "run_task w nid node st = (st1, res)" "map_of (dag_nodes st) nid = Some node"
    "own_ids (dag_nodes st)"
  shows "\<exists>new. assigned st1 = assigned st @ new \<and> distinct new \<and> set new \<subseteq> node_keys [nid] \<and>
           (\<forall>k. k \<notin> set new \<longrightarrow> run_context st1 k = run_context st k) \<and>
           dom (run_context st) \<subseteq> dom (run_context st1)"
proof -
  let ?r = "execute_node_with_tracking w node (run_context st)"
  have p: "task_post node (run_context st) ?r" by (rule tracking_post)
  have id: "node_id node = nid" using assms(3,2) by (rule own_ids_lookup)
  have a: "assigned st1 = assigned st @ written ?r" and c: "run_context st1 = context_after ?r"
    using assms(1) by (auto simp: run_task_def)
  from p id consider
    (none) "written ?r = []" "context_after ?r = run_context st"
    | (both) d m where "written ?r = [output_key nid, metadata_key nid]"
        "context_after ?r = (run_context st)(output_key nid \<mapsto> d, metadata_key nid \<mapsto> m)"
    by (auto simp: task_post_def)
  then show ?thesis
  proof cases
    case none
    with a c show ?thesis by simp
  next
    case both
    with a c show ?thesis by (auto simp: node_keys_def)
  qed
qed


lemma node_keys_Cons: "node_keys (a # xs) = {output_key a, metadata_key a} \<union> node_keys xs"
  by (auto simp: node_keys_def)

lemma node_keys_mem: "k \<in> node_keys xs \<Longrightarrow> \<exists>a \<in> set xs. k = output_key a \<or> k = metadata_key a"
  by (auto simp: node_keys_def)

lemma node_keys_disjoint: "set xs \<inter> set ys = {} \<Longrightarrow> node_keys xs \<inter> node_keys ys = {}"
  by (auto simp: node_keys_def)

lemma gather_gathered:
  "own_ids (dag_nodes st) \<Longrightarrow> distinct nids \<Longrightarrow> set nids \<subseteq> fst ` set (dag_nodes st) \<Longrightarrow>
   gather w nids st = (st', rs) \<Longrightarrow> gathered nids st st' rs"
proof (induction nids arbitrary: st st' rs)
  case Nil
  then show ?case by (auto simp: gathered_def)
next
  case (Cons nid rest)
  from Cons.prems(3) obtain node where m: "map_of (dag_nodes st) nid = Some node"
    using keys_map_of[of nid "dag_nodes st"] by auto
  obtain sa res where t: "run_task w nid node st = (sa, res)" by (cases "run_task w nid node st")
  obtain sb rb where g: "gather w rest sa = (sb, rb)" by (cases "gather w rest sa")
  from Cons.prems(4) m t g have st': "st' = sb" and rs: "rs = res # rb" by simp_all
  note f = run_task_fields[OF t m]
  note nd = run_task_node[OF t m Cons.prems(1)]
  from run_task_context[OF t m Cons.prems(1)] obtain new1 where
    c1: "assigned sa = assigned st @ new1" "distinct new1" "set new1 \<subseteq> node_keys [nid]"
      "\<forall>k. k \<notin> set new1 \<longrightarrow> run_context sa k = run_context st k"
      "dom (run_context st) \<subseteq> dom (run_context sa)"
    by blast
  have nr: "nid \<notin> set rest" and dr: "distinct rest" using Cons.prems(2) by simp_all
  have sub: "set rest \<subseteq> fst ` set (dag_nodes sa)"
    using Cons.prems(3) f(3) by (metis insert_subset list.simps(15) set_map)
  have ih: "gathered rest sa sb rb" using nd(1) dr sub g by (rule Cons.IH)
  then obtain new2 where
    c2: "assigned sb = assigned sa @ new2" "distinct new2" "set new2 \<subseteq> node_keys rest"
      "\<forall>k. k \<notin> set new2 \<longrightarrow> run_context sb k = run_context sa k"
      "dom (run_context sa) \<subseteq> dom (run_context sb)"
    unfolding gathered_def by blast
  from ih have i1: "map fst (dag_nodes sb) = map fst (dag_nodes sa)" "own_ids (dag_nodes sb)"
    "completed_nodes sb = completed_nodes sa" "failed_nodes sb = failed_nodes sa"
    "launched sb = launched sa @ rest"
    and i2: "\<And>k. k \<notin> set rest \<Longrightarrow> map_of (dag_nodes sb) k = map_of (dag_nodes sa) k"
    and i3: "list_all2 (\<lambda>nid res. \<exists>n. map_of (dag_nodes sb) nid = Some n \<and>
                    (res = Inr True \<longrightarrow> status n = COMPLETED \<or> status n = SKIPPED) \<and>
                    (res = Inr False \<longrightarrow> status n = FAILED)) rest rb"
    unfolding gathered_def by blast+
  have h: "\<exists>n. map_of (dag_nodes sb) nid = Some n \<and>
             (res = Inr True \<longrightarrow> status n = COMPLETED \<or> status n = SKIPPED) \<and>
             (res = Inr False \<longrightarrow> status n = FAILED)"
    using nd(2) i2[OF nr] by simp
  have o: "\<forall>k. k \<notin> set (nid # rest) \<longrightarrow> map_of (dag_nodes sb) k = map_of (dag_nodes st) k"
    using i2 f(5) by simp
  have dj: "set new1 \<inter> set new2 = {}"
    using c1(3) c2(3) node_keys_disjoint[of "[nid]" rest] nr by auto
  have a: "assigned sb = assigned st @ (new1 @ new2)" using c1(1) c2(1) by simp
  have d: "distinct (new1 @ new2)" using c1(2) c2(2) dj by simp
  have s: "set (new1 @ new2) \<subseteq> node_keys (nid # rest)"
    using c1(3) c2(3) by (auto simp: node_keys_def)
  have cx: "\<forall>k. k \<notin> set (new1 @ new2) \<longrightarrow> run_context sb k = run_context st k"
    using c1(4) c2(4) by simp
  have dm: "dom (run_context st) \<subseteq> dom (run_context sb)" using c1(5) c2(5) by blast
  have ex: "\<exists>new. assigned sb = assigned st @ new \<and> distinct new \<and> set new \<subseteq> node_keys (nid # rest) \<and>
             (\<forall>k. k \<notin> set new \<longrightarrow> run_context sb k = run_context st k) \<and>
             dom (run_context st) \<subseteq> dom (run_context sb)"
    using a d s cx dm by blast
  show ?case
    unfolding gathered_def st' rs
    using i1 f(1-4) h i3 o ex by simp
qed


lemma map_fst_map_entry: "map fst (AList.map_entry k f al) = map fst al"
  by (induction al) auto

lemma own_ids_map_entry:
  "own_ids ns \<Longrightarrow> (\<And>n. node_id (f n) = node_id n) \<Longrightarrow> own_ids (AList.map_entry k f ns)"
  by (induction ns) (auto simp: own_ids_def)

lemma map_of_map_entry':
  "map_of (AList.map_entry k f al) k' = (if k' = k then map_option f (map_of al k) else map_of al k')"
  by (induction al) auto

lemma record_result_step:
  "recorded [nid] [res] st (record_result (nid, res) st)" if "own_ids (dag_nodes st)"
proof (cases res)
  case (Inl e)
  then show ?thesis using that
    by (simp add: recorded_def record_result_def map_fst_map_entry own_ids_map_entry map_of_map_entry')
next
  case (Inr b)
  then show ?thesis using that
    by (cases b) (simp_all add: recorded_def record_result_def option.map_ident)
qed

lemma record_results:
  "own_ids (dag_nodes st) \<Longrightarrow> distinct nids \<Longrightarrow> length rs = length nids \<Longrightarrow>
   recorded nids rs st (fold record_result (zip nids rs) st)"
proof (induction nids arbitrary: rs st)
  case Nil
  then show ?case by (simp add: recorded_def)
next
  case (Cons nid rest)
  from Cons.prems(3) obtain res rs' where rs: "rs = res # rs'" and len: "length rs' = length rest"
    by (cases rs) auto
  let ?sa = "record_result (nid, res) st"
  let ?sb = "fold record_result (zip rest rs') ?sa"
  have nr: "nid \<notin> set rest" and dr: "distinct rest" using Cons.prems(2) by simp_all
  have s1: "recorded [nid] [res] st ?sa" using Cons.prems(1) by (rule record_result_step)
  then have oa: "own_ids (dag_nodes ?sa)" by (simp add: recorded_def)
  have s2: "recorded rest rs' ?sa ?sb" using oa dr len by (rule Cons.IH)
  from s1 have a1: "map fst (dag_nodes ?sa) = map fst (dag_nodes st)"
    "run_context ?sa = run_context st" "launched ?sa = launched st" "assigned ?sa = assigned st"
    and a2: "\<And>k. k \<noteq> nid \<Longrightarrow> map_of (dag_nodes ?sa) k = map_of (dag_nodes st) k \<and>
             (k \<in> set (failed_nodes ?sa) \<longleftrightarrow> k \<in> set (failed_nodes st))"
    and a3: "map_of (dag_nodes ?sa) nid
            = map_option (\<lambda>n. case res of
                                 Inl e \<Rightarrow> n\<lparr>status := FAILED, error_message := Some e\<rparr>
                               | Inr b \<Rightarrow> n) (map_of (dag_nodes st) nid)"
      "nid \<in> set (failed_nodes ?sa) \<longleftrightarrow> nid \<in> set (failed_nodes st) \<or> res \<noteq> Inr True"
    unfolding recorded_def by simp_all
  from s2 have b1: "map fst (dag_nodes ?sb) = map fst (dag_nodes ?sa)" "own_ids (dag_nodes ?sb)"
    "run_context ?sb = run_context ?sa" "launched ?sb = launched ?sa" "assigned ?sb = assigned ?sa"
    and b2: "\<And>k. k \<notin> set rest \<Longrightarrow> map_of (dag_nodes ?sb) k = map_of (dag_nodes ?sa) k \<and>
             (k \<in> set (failed_nodes ?sb) \<longleftrightarrow> k \<in> set (failed_nodes ?sa))"
    and b3: "list_all2 (\<lambda>nid res.
          map_of (dag_nodes ?sb) nid
            = map_option (\<lambda>n. case res of
                                 Inl e \<Rightarrow> n\<lparr>status := FAILED, error_message := Some e\<rparr>
                               | Inr b \<Rightarrow> n) (map_of (dag_nodes ?sa) nid) \<and>
          (nid \<in> set (failed_nodes ?sb) \<longleftrightarrow> nid \<in> set (failed_nodes ?sa) \<or> res \<noteq> Inr True))
        rest rs'"
    unfolding recorded_def by blast+
  have h: "map_of (dag_nodes ?sb) nid
            = map_option (\<lambda>n. case res of
                                 Inl e \<Rightarrow> n\<lparr>status := FAILED, error_message := Some e\<rparr>
                               | Inr b \<Rightarrow> n) (map_of (dag_nodes st) nid) \<and>
          (nid \<in> set (failed_nodes ?sb) \<longleftrightarrow> nid \<in> set (failed_nodes st) \<or> res \<noteq> Inr True)"
    using b2[OF nr] a3 by simp
  have t: "list_all2 (\<lambda>nid res.
          map_of (dag_nodes ?sb) nid
            = map_option (\<lambda>n. case res of
                                 Inl e \<Rightarrow> n\<lparr>status := FAILED, error_message := Some e\<rparr>
                               | Inr b \<Rightarrow> n) (map_of (dag_nodes st) nid) \<and>
          (nid \<in> set (failed_nodes ?sb) \<longleftrightarrow> nid \<in> set (failed_nodes st) \<or> res \<noteq> Inr True))
        rest rs'"
    using b3
  proof (rule list.rel_mono_strong)
    fix z y assume "z \<in> set rest"
      and p: "map_of (dag_nodes ?sb) z
            = map_option (\<lambda>n. case y of
                                 Inl e \<Rightarrow> n\<lparr>status := FAILED, error_message := Some e\<rparr>
                               | Inr b \<Rightarrow> n) (map_of (dag_nodes ?sa) z) \<and>
          (z \<in> set (failed_nodes ?sb) \<longleftrightarrow> z \<in> set (failed_nodes ?sa) \<or> y \<noteq> Inr True)"
    then have "z \<noteq> nid" using nr by auto
    from a2[OF this] p
    show "map_of (dag_nodes ?sb) z
            = map_option (\<lambda>n. case y of
                                 Inl e \<Rightarrow> n\<lparr>status := FAILED, error_message := Some e\<rparr>
                               | Inr b \<Rightarrow> n) (map_of (dag_nodes st) z) \<and>
          (z \<in> set (failed_nodes ?sb) \<longleftrightarrow> z \<in> set (failed_nodes st) \<or> y \<noteq> Inr True)"
      by simp
  qed
  have o: "\<forall>k. k \<notin> set (nid # rest) \<longrightarrow> map_of (dag_nodes ?sb) k = map_of (dag_nodes st) k \<and>
             (k \<in> set (failed_nodes ?sb) \<longleftrightarrow> k \<in> set (failed_nodes st))"
    using a2 b2 by simp
  have f: "fold record_result (zip (nid # rest) rs) st = ?sb" by (simp add: rs)
  show ?case
    unfolding f recorded_def rs using a1 b1 o h t by simp
qed


lemma list_all2_both:
  "list_all2 P xs ys \<Longrightarrow> list_all2 Q xs ys \<Longrightarrow> x \<in> set xs \<Longrightarrow> \<exists>y. P x y \<and> Q x y"
proof (induction xs arbitrary: ys)
  case Nil
  then show ?case by simp
next
  case (Cons a xs)
  then show ?case by (cases ys) auto
qed

lemma node_keys_append: "node_keys (xs @ ys) = node_keys xs \<union> node_keys ys"
  by (auto simp: node_keys_def)

lemma level_nodes_pending:
  "k \<in> set (level_nodes st level) \<Longrightarrow> \<exists>n. map_of (dag_nodes st) k = Some n \<and> status n = PENDING"
  by (auto simp: level_nodes_def split: option.splits)

lemma run_level_inv:
  assumes inv: "run_inv c0 st" and dl: "distinct level"
  shows "run_inv c0 (run_level w level st)
         \<and> map fst (dag_nodes (run_level w level st)) = map fst (dag_nodes st)
         \<and> launched (run_level w level st) = launched st @ level_nodes st level"
proof (cases "level_nodes st level = []")
  case True
  with inv show ?thesis by (simp add: run_level_def)
next
  case False
  define nids where "nids = level_nodes st level"
  obtain s1 rs where g: "gather w nids st = (s1, rs)" by (cases "gather w nids st")
  define s2 where "s2 = fold record_result (zip nids rs) s1"
  have r: "run_level w level st = s2"
    using False g by (simp add: run_level_def nids_def s2_def)
  from inv have own: "own_ids (dag_nodes st)" and dk: "distinct (map fst (dag_nodes st))"
    and st: "\<And>k n. map_of (dag_nodes st) k = Some n \<Longrightarrow>
         (k \<in> set (failed_nodes st) \<longleftrightarrow> status n = FAILED) \<and>
         (k \<in> set (launched st) \<longleftrightarrow> status n \<noteq> PENDING) \<and> status n \<noteq> RUNNING"
    and fk: "set (failed_nodes st) \<subseteq> fst ` set (dag_nodes st)"
    and lk: "set (launched st) \<subseteq> fst ` set (dag_nodes st)"
    and dla: "distinct (launched st)" and das: "distinct (assigned st)"
    and ak: "set (assigned st) \<subseteq> node_keys (launched st)"
    and dc: "dom c0 \<subseteq> dom (run_context st)"
    and cv: "\<And>k. k \<notin> set (assigned st) \<Longrightarrow> run_context st k = c0 k"
    unfolding run_inv_def by blast+
  have dn: "distinct nids" using dl by (simp add: nids_def level_nodes_def)
  have pend: "\<And>k. k \<in> set nids \<Longrightarrow> \<exists>n. map_of (dag_nodes st) k = Some n \<and> status n = PENDING"
    unfolding nids_def by (rule level_nodes_pending)
  have nk: "set nids \<subseteq> fst ` set (dag_nodes st)"
    using pend by (auto dest: map_of_keys)
  have fresh: "set (launched st) \<inter> set nids = {}" and nofail: "set (failed_nodes st) \<inter> set nids = {}"
    using pend st by fastforce+
  have G: "gathered nids st s1 rs" using own dn nk g by (rule gather_gathered)
  then have g1: "map fst (dag_nodes s1) = map fst (dag_nodes st)" "own_ids (dag_nodes s1)"
      "failed_nodes s1 = failed_nodes st" "launched s1 = launched st @ nids"
    and g2: "\<And>k. k \<notin> set nids \<Longrightarrow> map_of (dag_nodes s1) k = map_of (dag_nodes st) k"
    and g3: "list_all2 (\<lambda>nid res. \<exists>n. map_of (dag_nodes s1) nid = Some n \<and>
                    (res = Inr True \<longrightarrow> status n = COMPLETED \<or> status n = SKIPPED) \<and>
                    (res = Inr False \<longrightarrow> status n = FAILED)) nids rs"
    unfolding gathered_def by blast+
  from G obtain new where
    c1: "assigned s1 = assigned st @ new" "distinct new" "set new \<subseteq> node_keys nids"
      "\<And>k. k \<notin> set new \<Longrightarrow> run_context s1 k = run_context st k"
      "dom (run_context st) \<subseteq> dom (run_context s1)"
    unfolding gathered_def by blast
  have len: "length rs = length nids" using g3 by (simp add: list_all2_lengthD)
  have R: "recorded nids rs s1 s2" unfolding s2_def using g1(2) dn len by (rule record_results)
  then have r1: "map fst (dag_nodes s2) = map fst (dag_nodes s1)" "own_ids (dag_nodes s2)"
      "run_context s2 = run_context s1" "launched s2 = launched s1" "assigned s2 = assigned s1"
    and r2: "\<And>k. k \<notin> set nids \<Longrightarrow> map_of (dag_nodes s2) k = map_of (dag_nodes s1) k \<and>
             (k \<in> set (failed_nodes s2) \<longleftrightarrow> k \<in> set (failed_nodes s1))"
    and r3: "list_all2 (\<lambda>nid res.
          map_of (dag_nodes s2) nid
            = map_option (\<lambda>n. case res of
                                 Inl e \<Rightarrow> n\<lparr>status := FAILED, error_message := Some e\<rparr>
                               | Inr b \<Rightarrow> n) (map_of (dag_nodes s1) nid) \<and>
          (nid \<in> set (failed_nodes s2) \<longleftrightarrow> nid \<in> set (failed_nodes s1) \<or> res \<noteq> Inr True))
        nids rs"
    unfolding recorded_def by blast+
  have keys: "map fst (dag_nodes s2) = map fst (dag_nodes st)" using r1(1) g1(1) by simp
  have kset: "fst ` set (dag_nodes s2) = fst ` set (dag_nodes st)" using keys by (metis set_map)
  have la: "launched s2 = launched st @ nids" using r1(4) g1(4) by simp
  have node: "(k \<in> set (failed_nodes s2) \<longleftrightarrow> status n = FAILED) \<and>
         (k \<in> set (launched s2) \<longleftrightarrow> status n \<noteq> PENDING) \<and> status n \<noteq> RUNNING"
    if m: "map_of (dag_nodes s2) k = Some n" for k n
  proof (cases "k \<in> set nids")
    case False
    with r2[OF False] g2[OF False] g1(3) m st[of k n] la show ?thesis by simp
  next
    case True
    from list_all2_both[OF g3 r3 True] obtain res n1 where
      a: "map_of (dag_nodes s1) k = Some n1"
        "res = Inr True \<longrightarrow> status n1 = COMPLETED \<or> status n1 = SKIPPED"
        "res = Inr False \<longrightarrow> status n1 = FAILED"
      and b: "map_of (dag_nodes s2) k
            = map_option (\<lambda>n. case res of
                                 Inl e \<Rightarrow> n\<lparr>status := FAILED, error_message := Some e\<rparr>
                               | Inr b \<Rightarrow> n) (map_of (dag_nodes s1) k)"
        "k \<in> set (failed_nodes s2) \<longleftrightarrow> k \<in> set (failed_nodes s1) \<or> res \<noteq> Inr True"
      by blast
    have nf: "k \<notin> set (failed_nodes s1)" using nofail True g1(3) by auto
    have kl: "k \<in> set (launched s2)" using la True by simp
    show ?thesis
    proof (cases res)
      case (Inl e)
      with a b m nf kl show ?thesis by auto
    next
      case (Inr ok)
      with a b m nf kl show ?thesis by (cases ok) auto
    qed
  qed
  have fk2: "set (failed_nodes s2) \<subseteq> fst ` set (dag_nodes s2)"
  proof
    fix k assume k: "k \<in> set (failed_nodes s2)"
    show "k \<in> fst ` set (dag_nodes s2)"
    proof (cases "k \<in> set nids")
      case True
      with nk kset show ?thesis by auto
    next
      case False
      with r2[OF False] k g1(3) fk kset show ?thesis by auto
    qed
  qed
  have lk2: "set (launched s2) \<subseteq> fst ` set (dag_nodes s2)" using la lk nk kset by auto
  have dl2: "distinct (launched s2)" using la dla dn fresh by simp
  have as2: "assigned s2 = assigned st @ new" using r1(5) c1(1) by simp
  have "node_keys (launched st) \<inter> node_keys nids = {}" using fresh by (rule node_keys_disjoint)
  then have "set (assigned st) \<inter> set new = {}" using ak c1(3) by blast
  then have da2: "distinct (assigned s2)" using as2 das c1(2) by simp
  have ak2: "set (assigned s2) \<subseteq> node_keys (launched s2)"
    using as2 la ak c1(3) by (auto simp: node_keys_append)
  have dc2: "dom c0 \<subseteq> dom (run_context s2)" using dc c1(5) r1(3) by auto
  have cv2: "run_context s2 k = c0 k" if "k \<notin> set (assigned s2)" for k
    using that as2 r1(3) c1(4)[of k] cv[of k] by simp
  have "run_inv c0 s2"
    unfolding run_inv_def using r1(2) dk keys node fk2 lk2 dl2 da2 ak2 dc2 cv2 by simp
  with keys la show ?thesis by (simp add: r nids_def)
qed


lemma level_nodes_all:
  assumes "run_inv c0 st" "set level \<subseteq> fst ` set (dag_nodes st)" "set level \<inter> set (launched st) = {}"
  shows "level_nodes st level = level"
proof -
  have "\<And>k. k \<in> set level \<Longrightarrow>
          (case map_of (dag_nodes st) k of Some node \<Rightarrow> status node = PENDING | None \<Rightarrow> False)"
  proof -
    fix k assume k: "k \<in> set level"
    then obtain n where m: "map_of (dag_nodes st) k = Some n"
      using assms(2) keys_map_of[of k "dag_nodes st"] by auto
    have "k \<notin> set (launched st)" using k assms(3) by auto
    with assms(1) m have "status n = PENDING" unfolding run_inv_def by blast
    with m show "case map_of (dag_nodes st) k of Some node \<Rightarrow> status node = PENDING | None \<Rightarrow> False"
      by simp
  qed
  then show ?thesis unfolding level_nodes_def by (simp add: filter_id_conv)
qed

lemma run_levels_inv:
  "run_inv c0 st \<Longrightarrow> distinct (concat levels) \<Longrightarrow>
   set (concat levels) \<subseteq> fst ` set (dag_nodes st) \<Longrightarrow>
   set (concat levels) \<inter> set (launched st) = {} \<Longrightarrow>
   run_inv c0 (fold (run_level w) levels st)
   \<and> map fst (dag_nodes (fold (run_level w) levels st)) = map fst (dag_nodes st)
   \<and> launched (fold (run_level w) levels st) = launched st @ concat levels"
proof (induction levels arbitrary: st)
  case Nil
  then show ?case by simp
next
  case (Cons level rest)
  let ?s1 = "run_level w level st"
  have dl: "distinct level" and dr: "distinct (concat rest)"
    and lr: "set level \<inter> set (concat rest) = {}" using Cons.prems(2) by auto
  have lk: "set level \<subseteq> fst ` set (dag_nodes st)" and ll: "set level \<inter> set (launched st) = {}"
    using Cons.prems(3,4) by auto
  have ln: "level_nodes st level = level" using Cons.prems(1) lk ll by (rule level_nodes_all)
  from run_level_inv[OF Cons.prems(1) dl, of w] ln
  have i1: "run_inv c0 ?s1" and k1: "map fst (dag_nodes ?s1) = map fst (dag_nodes st)"
    and l1: "launched ?s1 = launched st @ level" by simp_all
  have ks: "fst ` set (dag_nodes ?s1) = fst ` set (dag_nodes st)" using k1 by (metis set_map)
  have rk: "set (concat rest) \<subseteq> fst ` set (dag_nodes ?s1)" using Cons.prems(3) ks by auto
  have rl: "set (concat rest) \<inter> set (launched ?s1) = {}"
    using Cons.prems(4) lr l1 by auto
  from Cons.IH[OF i1 dr rk rl] k1 l1 show ?case by simp
qed

lemma initial_inv:
  assumes "dag_inv dag" "all_pending dag"
  shows "run_inv c (initial_state dag c)"
proof -
  from assms(1) have d: "distinct (map fst (nodes dag))"
    and o: "\<And>k n. map_of (nodes dag) k = Some n \<Longrightarrow> node_id n = k"
    by (simp_all add: dag_inv_def)
  have own: "own_ids (nodes dag)"
    unfolding own_ids_def list_all_iff using d o by (auto dest: map_of_is_SomeI)
  have p: "\<And>k n. map_of (nodes dag) k = Some n \<Longrightarrow> status n = PENDING"
    using assms(2) by (auto simp: all_pending_def list_all_iff dest!: map_of_SomeD)
  show ?thesis
    unfolding run_inv_def initial_state_def using own d p by (simp add: node_keys_def)
qed

subsection \<open>The run of a validated DAG\<close>

lemma execute_dag_run:
  assumes "dag_inv dag" "all_pending dag" "deps_declared dag" "validate dag"
  shows "\<exists>levels st. get_execution_order dag = Inr levels
           \<and> execute_dag w dag c = (Inr (failed_nodes st = [] \<or> \<not> critical_failed st), st)
           \<and> run_inv c st \<and> map fst (dag_nodes st) = node_ids dag
           \<and> launched st = concat levels \<and> set (concat levels) = set (node_ids dag)"
proof -
  from execution_order_partition[OF assms] obtain levels where
    g: "get_execution_order dag = Inr levels" and dc: "distinct (concat levels)"
    and sc: "set (concat levels) = set (node_ids dag)" by blast
  let ?s0 = "initial_state dag c"
  let ?st = "fold (run_level w) levels ?s0"
  have i0: "run_inv c ?s0" using assms(1,2) by (rule initial_inv)
  have k0: "set (concat levels) \<subseteq> fst ` set (dag_nodes ?s0)"
    using sc by (simp add: initial_state_def node_ids_def)
  have l0: "set (concat levels) \<inter> set (launched ?s0) = {}" by (simp add: initial_state_def)
  from run_levels_inv[OF i0 dc k0 l0, of w]
  have "run_inv c ?st" "map fst (dag_nodes ?st) = node_ids dag" "launched ?st = concat levels"
    by (simp_all add: initial_state_def node_ids_def)
  moreover have "execute_dag w dag c = (Inr (failed_nodes ?st = [] \<or> \<not> critical_failed ?st), ?st)"
    using g by (simp add: execute_dag_def)
  ultimately show ?thesis using g sc by blast
qed


lemma in_nodes_map_of:
  "distinct (map fst ns) \<Longrightarrow> (k, n) \<in> set ns \<Longrightarrow> map_of ns k = Some n"
  by (rule map_of_is_SomeI)

lemma critical_failed_iff:
  assumes "run_inv c st"
  shows "(failed_nodes st = [] \<or> \<not> critical_failed st)
         \<longleftrightarrow> (\<forall>(k, n) \<in> set (dag_nodes st). status n = FAILED \<longrightarrow> is_optional n)"
proof -
  from assms have d: "distinct (map fst (dag_nodes st))"
    and f: "\<And>k n. map_of (dag_nodes st) k = Some n \<Longrightarrow> (k \<in> set (failed_nodes st) \<longleftrightarrow> status n = FAILED)"
    and fk: "set (failed_nodes st) \<subseteq> fst ` set (dag_nodes st)"
    unfolding run_inv_def by blast+
  have c: "critical_failed st \<longleftrightarrow> (\<exists>(k, n) \<in> set (dag_nodes st). status n = FAILED \<and> \<not> is_optional n)"
  proof
    assume "critical_failed st"
    then obtain k n where "k \<in> set (failed_nodes st)" "map_of (dag_nodes st) k = Some n" "\<not> is_optional n"
      by (auto simp: critical_failed_def list_ex_iff split: option.splits)
    with f[of k n] show "\<exists>(k, n) \<in> set (dag_nodes st). status n = FAILED \<and> \<not> is_optional n"
      by (auto dest: map_of_SomeD)
  next
    assume "\<exists>(k, n) \<in> set (dag_nodes st). status n = FAILED \<and> \<not> is_optional n"
    then obtain k n where kn: "(k, n) \<in> set (dag_nodes st)" "status n = FAILED" "\<not> is_optional n"
      by auto
    have m: "map_of (dag_nodes st) k = Some n" using d kn(1) by (rule in_nodes_map_of)
    have "k \<in> set (failed_nodes st)" using f[OF m] kn(2) by simp
    moreover have "case map_of (dag_nodes st) k of None \<Rightarrow> False | Some node \<Rightarrow> \<not> is_optional node"
      using m kn(3) by simp
    ultimately show "critical_failed st"
      unfolding critical_failed_def list_ex_iff by blast
  qed
  have "failed_nodes st = [] \<Longrightarrow> \<not> critical_failed st"
    by (simp add: critical_failed_def)
  with c show ?thesis by auto
qed

lemma success_iff:
  assumes "dag_inv dag" "all_pending dag" "deps_declared dag" "validate dag"
  shows "\<exists>st b. execute_dag w dag c = (Inr b, st)
           \<and> (b \<longleftrightarrow> ((\<forall>(k, n) \<in> set (dag_nodes st). status n \<noteq> FAILED)
                     \<or> (\<forall>(k, n) \<in> set (dag_nodes st). status n = FAILED \<longrightarrow> is_optional n)))"
proof -
  from execute_dag_run[OF assms, of w c] obtain levels st where
    r: "execute_dag w dag c = (Inr (failed_nodes st = [] \<or> \<not> critical_failed st), st)"
      "run_inv c st"
    by blast
  from critical_failed_iff[OF r(2)] r(1) show ?thesis by blast
qed

lemma is_optional_flag:
  "map_of (conditions node) ''optional'' = Some (PBool flag) \<Longrightarrow> is_optional node \<longleftrightarrow> flag"
  "map_of (conditions node) ''optional'' = None \<Longrightarrow> \<not> is_optional node"
  by (simp_all add: is_optional_def dict_get_def)

lemma inl_unchanged:
  assumes "returned (execute_node w node c k) = Inl e"
  shows "node_after (execute_node w node c k) = node"
proof -
  from assms have "should_skip node c = Inl e" by (rule returned_exception)
  then show ?thesis by (simp add: execute_node.simps)
qed

lemma written_iff_completed:
  assumes "status node \<noteq> COMPLETED"
  shows "(status (node_after (execute_node w node c k)) = COMPLETED
            \<and> written (execute_node w node c k) = [output_key (node_id node), metadata_key (node_id node)])
         \<or> (status (node_after (execute_node w node c k)) \<noteq> COMPLETED
            \<and> written (execute_node w node c k) = [] \<and> context_after (execute_node w node c k) = c)"
proof -
  let ?r = "execute_node w node c k"
  have p: "exec_post node c ?r" by (rule execute_node_post)
  show ?thesis
  proof (cases "returned ?r")
    case (Inl e)
    then have "node_after ?r = node" by (rule inl_unchanged)
    with p Inl assms show ?thesis by (auto simp: exec_post_def)
  next
    case (Inr b)
    with p show ?thesis by (cases b) (auto simp: exec_post_def)
  qed
qed

lemma assigned_once:
  assumes "dag_inv dag" "all_pending dag" "deps_declared dag" "validate dag"
  shows "\<exists>st b. execute_dag w dag c = (Inr b, st)
           \<and> distinct (assigned st) \<and> set (assigned st) \<subseteq> node_keys (node_ids dag)
           \<and> dom c \<subseteq> dom (run_context st)
           \<and> (\<forall>k. k \<notin> set (assigned st) \<longrightarrow> run_context st k = c k)"
proof -
  from execute_dag_run[OF assms, of w c] obtain levels st where
    r: "execute_dag w dag c = (Inr (failed_nodes st = [] \<or> \<not> critical_failed st), st)"
      "run_inv c st" "launched st = concat levels" "set (concat levels) = set (node_ids dag)"
    by blast
  from r(2) have "distinct (assigned st)" "set (assigned st) \<subseteq> node_keys (launched st)"
    "dom c \<subseteq> dom (run_context st)" "\<forall>k. k \<notin> set (assigned st) \<longrightarrow> run_context st k = c k"
    unfolding run_inv_def by blast+
  moreover have "node_keys (launched st) = node_keys (node_ids dag)"
    using r(3,4) by (simp add: node_keys_def)
  ultimately show ?thesis using r(1) by auto
qed


subsection \<open>Example runs, evaluated\<close>

lemma chain2_nodes:
  "nodes chain2 = [(''A'', new_node ''A'' ''web_search'' []), (''B'', new_node ''B'' ''text_writing'' [''A''])]"
  "edges chain2 = [(''A'', []), (''B'', [''A''])]"
  by (simp_all add: chain2_def WorkflowDAG_init_def add_node_def new_node_def)

lemma chain2_valid: "dag_inv chain2" "all_pending chain2" "deps_declared chain2" "validate chain2"
proof -
  show "dag_inv chain2" unfolding chain2_def by (rule dag_inv_init)
  show "all_pending chain2" by (simp add: chain2_nodes all_pending_def new_node_def)
  show "deps_declared chain2" by (simp add: chain2_nodes deps_declared_def node_ids_def new_node_def)
  show "validate chain2" by (simp add: chain2_nodes dag_eval)
qed

lemma chain2_order: "get_execution_order chain2 = Inr [[''A''], [''B'']]"
  by (simp add: chain2_nodes dag_eval)

lemma a_fails_A:
  "execute_node_with_tracking a_fails (new_node ''A'' ''web_search'' []) c
   = \<lparr>returned = Inr False,
      node_after = (new_node ''A'' ''web_search'' [])
         \<lparr>retry_count := 3, status := FAILED, error_message := Some ''boom''\<rparr>,
      context_after = c, invocations = 4, written = []\<rparr>"
  by (simp add: execute_node_with_tracking_def a_fails_def execute_node.simps example_defs)

lemma a_fails_B:
  "execute_node_with_tracking a_fails (new_node ''B'' ''text_writing'' [''A'']) c
   = \<lparr>returned = Inr True,
      node_after = (new_node ''B'' ''text_writing'' [''A''])
         \<lparr>status := COMPLETED, result := Some [(''echo'', PInt 1)]\<rparr>,
      context_after = c(''node_B_output'' \<mapsto> PDict [(''echo'', PInt 1)], ''node_B_metadata'' \<mapsto> PNone),
      invocations = 1, written = [''node_B_output'', ''node_B_metadata'']\<rparr>"
  by (simp add: execute_node_with_tracking_def a_fails_def execute_node.simps example_defs)


lemma new_node_sel:
  "node_id (new_node i t d) = i" "status (new_node i t d) = PENDING"
  "conditions (new_node i t d) = []" "dependencies (new_node i t d) = d"
  "agent_type (new_node i t d) = t" "retry_count (new_node i t d) = 0"
  "max_retries (new_node i t d) = 3"
  by (simp_all add: new_node_def)

lemmas run_eval = execute_dag_def initial_state_def run_level_def level_nodes_def run_task_def
  record_result_def critical_failed_def is_optional_def dict_get_def new_node_sel

lemma run_chain2_a_fails:
  "execute_dag a_fails chain2 Map.empty
   = (Inr False,
      \<lparr>dag_nodes =
         [(''A'', (new_node ''A'' ''web_search'' [])
             \<lparr>retry_count := 3, status := FAILED, error_message := Some ''boom''\<rparr>),
          (''B'', (new_node ''B'' ''text_writing'' [''A''])
             \<lparr>status := COMPLETED, result := Some [(''echo'', PInt 1)]\<rparr>)],
       run_context = [''node_B_output'' \<mapsto> PDict [(''echo'', PInt 1)], ''node_B_metadata'' \<mapsto> PNone],
       completed_nodes = [''B''], failed_nodes = [''A''],
       launched = [''A'', ''B''], assigned = [''node_B_output'', ''node_B_metadata'']\<rparr>)"
  by (simp add: run_eval chain2_order chain2_nodes a_fails_A a_fails_B)


lemma optional_pair_nodes:
  "nodes optional_pair =
     [(''A'', (new_node ''A'' ''web_search'' [])\<lparr>conditions := [(''optional'', PBool True)]\<rparr>),
      (''B'', new_node ''B'' ''text_writing'' [])]"
  "edges optional_pair = [(''A'', []), (''B'', [])]"
  by (simp_all add: optional_pair_def WorkflowDAG_init_def add_node_def new_node_def)

lemma optional_pair_valid:
  "dag_inv optional_pair" "all_pending optional_pair" "deps_declared optional_pair"
  "validate optional_pair"
proof -
  show "dag_inv optional_pair" unfolding optional_pair_def by (rule dag_inv_init)
  show "all_pending optional_pair" by (simp add: optional_pair_nodes all_pending_def new_node_def)
  show "deps_declared optional_pair"
    by (simp add: optional_pair_nodes deps_declared_def node_ids_def new_node_def)
  show "validate optional_pair" by (simp add: optional_pair_nodes dag_eval)
qed

lemma optional_pair_order: "get_execution_order optional_pair = Inr [[''A'', ''B'']]"
  by (simp add: optional_pair_nodes dag_eval)

lemma a_fails_optional_A:
  "execute_node_with_tracking a_fails
     ((new_node ''A'' ''web_search'' [])\<lparr>conditions := [(''optional'', PBool True)]\<rparr>) c
   = \<lparr>returned = Inr False,
      node_after = (new_node ''A'' ''web_search'' [])
         \<lparr>conditions := [(''optional'', PBool True)], retry_count := 3, status := FAILED,
          error_message := Some ''boom''\<rparr>,
      context_after = c, invocations = 4, written = []\<rparr>"
  by (simp add: execute_node_with_tracking_def a_fails_def execute_node.simps example_defs
      dict_get_def py_eq_def)

lemma a_fails_B0:
  "execute_node_with_tracking a_fails (new_node ''B'' ''text_writing'' []) c
   = \<lparr>returned = Inr True,
      node_after = (new_node ''B'' ''text_writing'' [])
         \<lparr>status := COMPLETED, result := Some [(''echo'', PInt 1)]\<rparr>,
      context_after = c(''node_B_output'' \<mapsto> PDict [(''echo'', PInt 1)], ''node_B_metadata'' \<mapsto> PNone),
      invocations = 1, written = [''node_B_output'', ''node_B_metadata'']\<rparr>"
  by (simp add: execute_node_with_tracking_def a_fails_def execute_node.simps example_defs)

lemma run_optional_pair:
  "fst (execute_dag a_fails optional_pair Map.empty) = Inr True"
  "map (\<lambda>(k, n). (k, status n)) (dag_nodes (snd (execute_dag a_fails optional_pair Map.empty)))
   = [(''A'', FAILED), (''B'', COMPLETED)]"
  by (simp_all add: run_eval optional_pair_order optional_pair_nodes a_fails_optional_A a_fails_B0)

lemma all_succeed_A:
  "execute_node_with_tracking all_succeed (new_node ''A'' ''web_search'' []) c
   = \<lparr>returned = Inr True,
      node_after = (new_node ''A'' ''web_search'' [])
         \<lparr>status := COMPLETED, result := Some [(''echo'', PInt 1)]\<rparr>,
      context_after = c(''node_A_output'' \<mapsto> PDict [(''echo'', PInt 1)], ''node_A_metadata'' \<mapsto> PNone),
      invocations = 1, written = [''node_A_output'', ''node_A_metadata'']\<rparr>"
  by (simp add: execute_node_with_tracking_def all_succeed_def execute_node.simps example_defs)

lemma all_succeed_B:
  "execute_node_with_tracking all_succeed (new_node ''B'' ''text_writing'' [''A'']) c
   = \<lparr>returned = Inr True,
      node_after = (new_node ''B'' ''text_writing'' [''A''])
         \<lparr>status := COMPLETED, result := Some [(''echo'', PInt 1)]\<rparr>,
      context_after = c(''node_B_output'' \<mapsto> PDict [(''echo'', PInt 1)], ''node_B_metadata'' \<mapsto> PNone),
      invocations = 1, written = [''node_B_output'', ''node_B_metadata'']\<rparr>"
  by (simp add: execute_node_with_tracking_def all_succeed_def execute_node.simps example_defs)

lemma run_chain2_all_succeed:
  "execute_dag all_succeed chain2 Map.empty
   = (Inr True,
      \<lparr>dag_nodes =
         [(''A'', (new_node ''A'' ''web_search'' [])
             \<lparr>status := COMPLETED, result := Some [(''echo'', PInt 1)]\<rparr>),
          (''B'', (new_node ''B'' ''text_writing'' [''A''])
             \<lparr>status := COMPLETED, result := Some [(''echo'', PInt 1)]\<rparr>)],
       run_context = [''node_A_output'' \<mapsto> PDict [(''echo'', PInt 1)], ''node_A_metadata'' \<mapsto> PNone,
                      ''node_B_output'' \<mapsto> PDict [(''echo'', PInt 1)], ''node_B_metadata'' \<mapsto> PNone],
       completed_nodes = [''B'', ''A''], failed_nodes = [],
       launched = [''A'', ''B''],
       assigned = [''node_A_output'', ''node_A_metadata'', ''node_B_output'', ''node_B_metadata'']\<rparr>)"
  by (simp add: run_eval chain2_order chain2_nodes all_succeed_A all_succeed_B)


subsection \<open>The claims about a run\<close>




text \<open>
  C3. For a validated DAG whose nodes are all \<^verbatim>\<open>PENDING\<close>, \<^verbatim>\<open>_execute_dag\<close> returns, and it
  returns \<^verbatim>\<open>True\<close> (the workflow is \<^verbatim>\<open>completed\<close>) if and only if no node is \<^verbatim>\<open>FAILED\<close> or
  every \<^verbatim>\<open>FAILED\<close> node is optional; otherwise it returns \<^verbatim>\<open>False\<close> (\<^verbatim>\<open>failed\<close>). A node is
  optional when \<^verbatim>\<open>conditions.get("optional", False)\<close> is truthy: for a boolean flag, when
  the flag is \<^verbatim>\<open>true\<close>, and a node without the flag is not optional.
\<close>

theorem execute_dag_success_iff:
  assumes "dag_inv dag" "all_pending dag" "deps_declared dag" "validate dag"
  shows "(\<exists>st b. execute_dag w dag c = (Inr b, st)
            \<and> (b \<longleftrightarrow> ((\<forall>(k, n) \<in> set (dag_nodes st). status n \<noteq> FAILED)
                      \<or> (\<forall>(k, n) \<in> set (dag_nodes st). status n = FAILED \<longrightarrow> is_optional n))))
         \<and> (\<forall>node flag. map_of (conditions node) ''optional'' = Some (PBool flag) \<longrightarrow>
               (is_optional node \<longleftrightarrow> flag))
         \<and> (\<forall>node. map_of (conditions node) ''optional'' = None \<longrightarrow> \<not> is_optional node)"
  using success_iff[OF assms, of w c] is_optional_flag by blast

theorem execute_dag_success_iff_witness:
  "dag_inv chain2 \<and> all_pending chain2 \<and> deps_declared chain2 \<and> validate chain2
   \<and> fst (execute_dag a_fails chain2 Map.empty) = Inr False
   \<and> map (\<lambda>(k, n). (k, status n, is_optional n))
        (dag_nodes (snd (execute_dag a_fails chain2 Map.empty)))
       = [(''A'', FAILED, False), (''B'', COMPLETED, False)]
   \<and> dag_inv optional_pair \<and> all_pending optional_pair \<and> deps_declared optional_pair
   \<and> validate optional_pair
   \<and> fst (execute_dag a_fails optional_pair Map.empty) = Inr True
   \<and> map (\<lambda>(k, n). (k, status n)) (dag_nodes (snd (execute_dag a_fails optional_pair Map.empty)))
       = [(''A'', FAILED), (''B'', COMPLETED)]
   \<and> is_optional ((new_node ''A'' ''web_search'' [])\<lparr>conditions := [(''optional'', PBool True)]\<rparr>)"
  using execute_dag_success_iff[OF chain2_valid, of a_fails Map.empty]
    execute_dag_success_iff[OF optional_pair_valid, of a_fails Map.empty]
  by (simp add: chain2_valid optional_pair_valid run_chain2_a_fails run_optional_pair
      is_optional_def dict_get_def new_node_sel)

text \<open>
  C9. In one run of a validated DAG whose nodes are all \<^verbatim>\<open>PENDING\<close>, the keys that the
  executor assigns in the context are keys \<^verbatim>\<open>node_<id>_output\<close> and \<^verbatim>\<open>node_<id>_metadata\<close> of
  nodes of the DAG, and each of them is assigned at most once, so no key that the executor has
  written is overwritten. The context keeps all its keys, and every key that the executor did
  not assign keeps its value. One call of \<^verbatim>\<open>execute_node\<close> for a node that is not yet
  \<^verbatim>\<open>COMPLETED\<close> assigns the two keys of the node exactly when it leaves the node \<^verbatim>\<open>COMPLETED\<close>;
  when it skips the node or fails it assigns nothing and the context is unchanged.
\<close>

theorem context_keys_assigned_once:
  assumes "dag_inv dag" "all_pending dag" "deps_declared dag" "validate dag"
  shows "(\<exists>st b. execute_dag w dag c = (Inr b, st)
            \<and> distinct (assigned st) \<and> set (assigned st) \<subseteq> node_keys (node_ids dag)
            \<and> dom c \<subseteq> dom (run_context st)
            \<and> (\<forall>k. k \<notin> set (assigned st) \<longrightarrow> run_context st k = c k))
         \<and> (\<forall>node c' k. status node \<noteq> COMPLETED \<longrightarrow>
               (status (node_after (execute_node w node c' k)) = COMPLETED
                  \<and> written (execute_node w node c' k)
                      = [output_key (node_id node), metadata_key (node_id node)])
               \<or> (status (node_after (execute_node w node c' k)) \<noteq> COMPLETED
                  \<and> written (execute_node w node c' k) = []
                  \<and> context_after (execute_node w node c' k) = c'))"
  using assigned_once[OF assms, of w c] written_iff_completed[of _ w] by blast

theorem context_keys_assigned_once_witness:
  "dag_inv chain2 \<and> all_pending chain2 \<and> deps_declared chain2 \<and> validate chain2
   \<and> assigned (snd (execute_dag all_succeed chain2 Map.empty))
       = [''node_A_output'', ''node_A_metadata'', ''node_B_output'', ''node_B_metadata'']
   \<and> assigned (snd (execute_dag a_fails chain2 Map.empty))
       = [''node_B_output'', ''node_B_metadata'']
   \<and> run_context (snd (execute_dag a_fails chain2 Map.empty)) ''node_B_output''
       = Some (PDict [(''echo'', PInt 1)])
   \<and> run_context (snd (execute_dag a_fails chain2 Map.empty)) ''node_A_output'' = None"
  using context_keys_assigned_once[OF chain2_valid, of all_succeed Map.empty]
    context_keys_assigned_once[OF chain2_valid, of a_fails Map.empty]
  by (simp add: chain2_valid run_chain2_all_succeed run_chain2_a_fails)

section \<open>Properties of the validator\<close>

subsection \<open>The checks before the cycle detection\<close>

lemma update_fresh: "k \<notin> fst ` set al \<Longrightarrow> AList.update k v al = al @ [(k, v)]"
  by (induction al) auto

lemma dependency_graph_fold:
  "distinct (declared_ids ns) \<Longrightarrow> set (declared_ids ns) \<inter> fst ` set acc = {} \<Longrightarrow>
   fold (\<lambda>node graph. AList.update (py_norm (node_id_of node))
                          (map py_norm (node_deps_of node)) graph) ns acc
   = acc @ map (\<lambda>node. (py_norm (node_id_of node), map py_norm (node_deps_of node))) ns"
proof (induction ns arbitrary: acc)
  case Nil
  then show ?case by simp
next
  case (Cons n ns)
  have fresh: "py_norm (node_id_of n) \<notin> fst ` set acc"
    using Cons.prems(2) by (auto simp: declared_ids_def)
  have d: "distinct (declared_ids ns)" using Cons.prems(1) by (simp add: declared_ids_def)
  have i: "set (declared_ids ns) \<inter>
           fst ` set (acc @ [(py_norm (node_id_of n), map py_norm (node_deps_of n))]) = {}"
    using Cons.prems by (auto simp: declared_ids_def)
  show ?case
    using Cons.IH[OF d i] fresh by (simp add: update_fresh)
qed

lemma dependency_graph_map:
  "distinct (declared_ids ns) \<Longrightarrow>
   dependency_graph ns
   = map (\<lambda>node. (py_norm (node_id_of node), map py_norm (node_deps_of node))) ns"
  unfolding dependency_graph_def using dependency_graph_fold[of ns "[]"] by simp

lemma filter_required:
  "filter (\<lambda>field. field \<notin> fst ` set kvs) required_fields = [] \<longleftrightarrow>
   has_key (PDict kvs) ''id'' \<and> has_key (PDict kvs) ''name'' \<and> has_key (PDict kvs) ''agent_type''"
  by (simp add: required_fields_def has_key_def filter_empty_conv)

lemma check_nodes_Inr:
  "check_nodes i ns acc = Inr ids \<longleftrightarrow>
   list_all node_shape ns \<and> distinct (declared_ids ns) \<and>
   set (declared_ids ns) \<inter> set acc = {} \<and> ids = acc @ declared_ids ns"
proof (induction ns arbitrary: i acc)
  case Nil
  then show ?case by (auto simp: declared_ids_def)
next
  case (Cons n ns)
  show ?case
  proof (cases n)
    case (PDict kvs)
    show ?thesis
    proof (cases "filter (\<lambda>field. field \<notin> fst ` set kvs) required_fields")
      case (Cons f fs)
      then have "\<not> (has_key n ''id'' \<and> has_key n ''name'' \<and> has_key n ''agent_type'')"
        using filter_required[of kvs] PDict by simp
      then show ?thesis using Cons PDict by (auto simp: node_shape_def)
    next
      case Nil
      then have keys: "has_key n ''id'' \<and> has_key n ''name'' \<and> has_key n ''agent_type''"
        using filter_required[of kvs] PDict by simp
      show ?thesis
      proof (cases "py_hashable (node_id_of n)")
        case False
        then show ?thesis using Nil PDict by (cases "node_id_of n") (auto simp: node_shape_def)
      next
        case h: True
        show ?thesis
        proof (cases "py_norm (node_id_of n) \<in> set acc")
          case True
          then show ?thesis using Nil PDict h by (auto simp: declared_ids_def)
        next
          case fresh: False
          show ?thesis
          proof (cases "deps_is_list n")
            case False
            then show ?thesis using Nil PDict h fresh
              by (auto simp: node_shape_def deps_is_list_def split: pyval.splits)
          next
            case True
            then obtain deps where dl: "dict_get kvs ''dependencies'' (PList []) = PList deps"
              using PDict by (auto simp: deps_is_list_def split: pyval.splits)
            have shape: "node_shape n" using keys h True by (simp add: node_shape_def)
            have step: "check_nodes i (n # ns) acc
                      = check_nodes (Suc i) ns (acc @ [py_norm (node_id_of n)])"
              using Nil PDict h fresh dl by simp
            show ?thesis
              unfolding step Cons.IH using shape fresh by (auto simp: declared_ids_def)
          qed
        qed
      qed
    qed
  qed (auto simp: node_shape_def has_key_def)
qed

lemma first_bad_dep_None:
  "first_bad_dep nid deps ids = None \<longleftrightarrow>
   (\<forall>dep \<in> set deps. py_hashable dep \<and> py_norm dep \<in> set ids \<and> \<not> py_eq dep nid)"
  by (induction deps) auto

lemma check_deps_None:
  "check_deps ns ids = None \<longleftrightarrow>
   (\<forall>node \<in> set ns. \<forall>dep \<in> set (node_deps_of node).
      py_hashable dep \<and> py_norm dep \<in> set ids \<and> \<not> py_eq dep (node_id_of node))"
proof (induction ns)
  case Nil
  then show ?case by simp
next
  case (Cons n ns)
  show ?case
  proof (cases "first_bad_dep (node_id_of n) (node_deps_of n) ids")
    case None
    then show ?thesis using Cons.IH first_bad_dep_None[of "node_id_of n" "node_deps_of n" ids]
      by simp
  next
    case (Some e)
    then have "\<not> (\<forall>dep \<in> set (node_deps_of n).
        py_hashable dep \<and> py_norm dep \<in> set ids \<and> \<not> py_eq dep (node_id_of n))"
      using first_bad_dep_None[of "node_id_of n" "node_deps_of n" ids] by simp
    then show ?thesis using Some by auto
  qed
qed

lemma hashable_norm: "py_hashable a \<Longrightarrow> py_norm b = py_norm a \<Longrightarrow> py_hashable b"
  by (cases a; cases b) simp_all

lemma declared_hashable:
  "list_all node_shape ns \<Longrightarrow> py_norm dep \<in> set (declared_ids ns) \<Longrightarrow> py_hashable dep"
  by (auto simp: declared_ids_def list_all_iff node_shape_def intro: hashable_norm)

subsection \<open>Kahn's algorithm with the in-degrees of the validator\<close>

lemma kahn_step_exact:
  assumes dk: "distinct (map fst g)" and inv: "kahn_inv g deg seen (cur # queue)"
    and ex: "\<forall>n \<in> fst ` set g.
               deg n = int (card (set (graph_deps g n) \<inter> fst ` set g - set seen))"
    and zq: "\<forall>n \<in> fst ` set g. deg n = 0 \<longrightarrow> n \<in> set (seen @ cur # queue)"
  shows "(\<forall>n \<in> fst ` set g.
            (if n \<in> fst ` set g \<and> cur \<in> set (graph_deps g n) then deg n - 1 else deg n)
            = int (card (set (graph_deps g n) \<inter> fst ` set g - set (seen @ [cur])))) \<and>
         (\<forall>n \<in> fst ` set g.
            (if n \<in> fst ` set g \<and> cur \<in> set (graph_deps g n) then deg n - 1 else deg n) = 0 \<longrightarrow>
            n \<in> set ((seen @ [cur]) @ queue @
                     filter (\<lambda>n. cur \<in> set (graph_deps g n) \<and> deg n - 1 = 0) (map fst g)))"
proof -
  define K where "K = fst ` set g"
  define D where "D = (\<lambda>n. set (graph_deps g n) \<inter> K)"
  from inv have i1: "distinct (seen @ cur # queue)" and i2: "set (seen @ cur # queue) \<subseteq> K"
    unfolding kahn_inv_def K_def by blast+
  have e: "\<And>n. n \<in> K \<Longrightarrow> deg n = int (card (D n - set seen))"
    using ex unfolding K_def D_def by blast
  have z: "\<And>n. n \<in> K \<Longrightarrow> deg n = 0 \<Longrightarrow> n \<in> set (seen @ cur # queue)"
    using zq unfolding K_def by blast
  have finD: "\<And>n. finite (D n)" by (simp add: D_def)
  have curK: "cur \<in> K" using i2 by simp
  have curnd: "cur \<notin> set seen" using i1 by simp
  have a: "(if n \<in> K \<and> cur \<in> set (graph_deps g n) then deg n - 1 else deg n)
           = int (card (D n - set (seen @ [cur])))" if nK: "n \<in> K" for n
  proof (cases "cur \<in> set (graph_deps g n)")
    case True
    have m: "cur \<in> D n - set seen" using True curK curnd by (simp add: D_def)
    have f: "finite (D n - set seen)" using finD by simp
    have "D n - set (seen @ [cur]) = (D n - set seen) - {cur}" by auto
    then have c: "card (D n - set (seen @ [cur])) = card (D n - set seen) - 1"
      using m f by simp
    have "1 \<le> card (D n - set seen)" using m f
      by (metis One_nat_def Suc_leI card_gt_0_iff empty_iff)
    with c e[OF nK] True nK show ?thesis by simp
  next
    case False
    then have "cur \<notin> D n" by (simp add: D_def)
    then have "D n - set (seen @ [cur]) = D n - set seen" by auto
    with e[OF nK] False show ?thesis by simp
  qed
  have b: "n \<in> set ((seen @ [cur]) @ queue @
                     filter (\<lambda>n. cur \<in> set (graph_deps g n) \<and> deg n - 1 = 0) (map fst g))"
    if nK: "n \<in> K"
      and zero: "(if n \<in> K \<and> cur \<in> set (graph_deps g n) then deg n - 1 else deg n) = 0" for n
  proof (cases "cur \<in> set (graph_deps g n)")
    case True
    with zero nK have "deg n - 1 = 0" by simp
    with True nK show ?thesis by (simp add: K_def)
  next
    case False
    with zero have "deg n = 0" by simp
    from z[OF nK this] show ?thesis by auto
  qed
  show ?thesis using a b unfolding K_def D_def by blast
qed

lemma kahn_loop_complete:
  "distinct (map fst g) \<Longrightarrow> kahn_inv g deg seen queue \<Longrightarrow>
   \<forall>n \<in> fst ` set g. deg n = int (card (set (graph_deps g n) \<inter> fst ` set g - set seen)) \<Longrightarrow>
   \<forall>n \<in> fst ` set g. deg n = 0 \<longrightarrow> n \<in> set (seen @ queue) \<Longrightarrow>
   p = length seen \<Longrightarrow>
   wf {(d, n). n \<in> fst ` set g \<and> d \<in> set (graph_deps g n) \<inter> fst ` set g} \<Longrightarrow>
   kahn_loop g deg queue p = length g"
proof (induction g deg queue p arbitrary: seen rule: kahn_loop.induct)
  case (1 graph in_degree processed)
  define K where "K = fst ` set graph"
  define R where "R = {(d, n). n \<in> K \<and> d \<in> set (graph_deps graph n) \<inter> K}"
  from "1.prems"(2) have d: "distinct seen" and sub: "set seen \<subseteq> K"
    by (simp_all add: kahn_inv_def K_def)
  have wf: "wf R" using "1.prems"(6) by (simp add: R_def K_def)
  have all: "K \<subseteq> set seen"
  proof (rule ccontr)
    assume "\<not> K \<subseteq> set seen"
    then obtain x where x: "x \<in> K - set seen" by auto
    from wfE_min[OF wf x] obtain z where z: "z \<in> K - set seen"
      and m: "\<And>y. (y, z) \<in> R \<Longrightarrow> y \<notin> K - set seen" by blast
    have "in_degree z \<noteq> 0" using "1.prems"(4) z unfolding K_def by auto
    moreover have "in_degree z = int (card (set (graph_deps graph z) \<inter> K - set seen))"
      using "1.prems"(3) z unfolding K_def by blast
    ultimately have "card (set (graph_deps graph z) \<inter> K - set seen) \<noteq> 0" by simp
    then have "set (graph_deps graph z) \<inter> K - set seen \<noteq> {}" by auto
    then obtain y where y: "y \<in> set (graph_deps graph z)" "y \<in> K" "y \<notin> set seen" by auto
    then have "(y, z) \<in> R" using z by (simp add: R_def)
    from m[OF this] y show False by simp
  qed
  have "card K = length graph"
    using "1.prems"(1) unfolding K_def by (metis distinct_card length_map set_map)
  moreover have "card (set seen) = length seen" using d by (rule distinct_card)
  moreover have "set seen = K" using all sub by auto
  ultimately show ?case using "1.prems"(5) by simp
next
  case (2 graph in_degree current queue processed)
  let ?deg' = "\<lambda>n. if n \<in> fst ` set graph \<and> current \<in> set (graph_deps graph n)
                    then in_degree n - 1 else in_degree n"
  let ?q' = "queue @ filter (\<lambda>n. current \<in> set (graph_deps graph n) \<and> in_degree n - 1 = 0)
                      (map fst graph)"
  have f: "fold (kahn_visit current) graph (in_degree, queue) = (?deg', ?q')"
    using "2.prems"(1) by (rule kahn_fold)
  have inv': "kahn_inv graph ?deg' (seen @ [current]) ?q'"
    using "2.prems"(1,2) by (rule kahn_step)
  note ex = kahn_step_exact[OF "2.prems"(1,2,3,4)]
  have l: "length (seen @ [current]) = processed + 1" using "2.prems"(5) by simp
  have "kahn_loop graph ?deg' ?q' (processed + 1) = length graph"
    by (rule "2.IH"[OF f[symmetric] "2.prems"(1) inv' conjunct1[OF ex] conjunct2[OF ex]
          l[symmetric] "2.prems"(6)])
  then show ?case using f by (simp add: kahn_loop.simps(2))
qed

lemma takeWhile_shorter:
  "x \<in> set xs \<Longrightarrow> length (takeWhile (\<lambda>y. y \<noteq> x) xs) < length xs"
  by (induction xs) auto

lemma topological_wf:
  assumes d: "distinct order" and s: "set order = fst ` set g" and t: "topological g order"
  shows "wf {(d, n). n \<in> fst ` set g \<and> d \<in> set (graph_deps g n) \<inter> fst ` set g}"
proof -
  define idx where "idx = (\<lambda>n. length (takeWhile (\<lambda>y. y \<noteq> n) order))"
  have "{(d, n). n \<in> fst ` set g \<and> d \<in> set (graph_deps g n) \<inter> fst ` set g} \<subseteq> measure idx"
  proof
    fix p
    assume "p \<in> {(d, n). n \<in> fst ` set g \<and> d \<in> set (graph_deps g n) \<inter> fst ` set g}"
    then obtain dep n where p: "p = (dep, n)" and n: "n \<in> fst ` set g"
      and dep: "dep \<in> set (graph_deps g n)" "dep \<in> fst ` set g"
      by blast
    from n s have "n \<in> set order" by simp
    then obtain xs ys where o: "order = xs @ n # ys" by (auto dest: split_list)
    have nx: "n \<notin> set xs" using d o by simp
    have dx: "dep \<in> set xs" using t o dep unfolding topological_def by blast
    have "takeWhile (\<lambda>y. y \<noteq> n) (xs @ n # ys) = xs @ takeWhile (\<lambda>y. y \<noteq> n) (n # ys)"
      by (rule takeWhile_append2) (use nx in auto)
    then have "idx n = length xs" by (simp add: idx_def o)
    moreover have "idx dep = length (takeWhile (\<lambda>y. y \<noteq> dep) xs)"
      using dx by (simp add: idx_def o takeWhile_append1)
    ultimately have "idx dep < idx n" using takeWhile_shorter[OF dx] by simp
    then show "p \<in> measure idx" by (simp add: p)
  qed
  then show ?thesis by (rule wf_subset[OF wf_measure])
qed

text \<open>The loop of the validator: every node is processed exactly when the dependency pairs
  are well-founded, given that no dependency list repeats an entry.\<close>

lemma validator_kahn:
  assumes dk: "distinct (map fst g)"
    and dd: "\<forall>n \<in> fst ` set g. distinct (graph_deps g n) \<and> set (graph_deps g n) \<subseteq> fst ` set g"
  shows "kahn_loop g (\<lambda>n. int (length (graph_deps g n)))
           (filter (\<lambda>n. int (length (graph_deps g n)) = 0) (map fst g)) 0 = length g
         \<longleftrightarrow> wf {(d, n). n \<in> fst ` set g \<and> d \<in> set (graph_deps g n)}"
proof -
  let ?deg = "\<lambda>n. int (length (graph_deps g n))"
  let ?q = "filter (\<lambda>n. ?deg n = 0) (map fst g)"
  have R: "{(d, n). n \<in> fst ` set g \<and> d \<in> set (graph_deps g n) \<inter> fst ` set g}
         = {(d, n). n \<in> fst ` set g \<and> d \<in> set (graph_deps g n)}"
    using dd by auto
  have c: "card (set (graph_deps g n) \<inter> fst ` set g - set []) = length (graph_deps g n)"
    if "n \<in> fst ` set g" for n
  proof -
    have "set (graph_deps g n) \<inter> fst ` set g = set (graph_deps g n)" using dd that by auto
    moreover have "distinct (graph_deps g n)" using dd that by blast
    ultimately show ?thesis by (simp add: distinct_card)
  qed
  have inv: "kahn_inv g ?deg [] ?q"
    unfolding kahn_inv_def using dk c by (auto simp: topological_def)
  have ex: "\<forall>n \<in> fst ` set g. ?deg n = int (card (set (graph_deps g n) \<inter> fst ` set g - set []))"
    using c by simp
  have zq: "\<forall>n \<in> fst ` set g. ?deg n = 0 \<longrightarrow> n \<in> set ([] @ ?q)" by auto
  show ?thesis
  proof
    assume "kahn_loop g ?deg ?q 0 = length g"
    from kahn_loop_order[OF dk inv _ this]
    obtain order where "distinct order" "set order = fst ` set g" "topological g order"
      by auto
    from topological_wf[OF this] show "wf {(d, n). n \<in> fst ` set g \<and> d \<in> set (graph_deps g n)}"
      unfolding R .
  next
    assume "wf {(d, n). n \<in> fst ` set g \<and> d \<in> set (graph_deps g n)}"
    then have "wf {(d, n). n \<in> fst ` set g \<and> d \<in> set (graph_deps g n) \<inter> fst ` set g}"
      unfolding R .
    from kahn_loop_complete[OF dk inv ex zq _ this] show "kahn_loop g ?deg ?q 0 = length g"
      by simp
  qed
qed

subsection \<open>The validator as a whole\<close>

lemma error_message_nonempty: "error_message str_of e \<noteq> []"
  by (cases e) simp_all

lemma dependency_graph_deps:
  assumes d: "distinct (declared_ids ns)" and n: "node \<in> set ns"
  shows "graph_deps (dependency_graph ns) (py_norm (node_id_of node))
         = map py_norm (node_deps_of node)"
proof -
  let ?g = "map (\<lambda>node. (py_norm (node_id_of node), map py_norm (node_deps_of node))) ns"
  have dk: "distinct (map fst ?g)" using d by (simp add: declared_ids_def comp_def)
  have "(py_norm (node_id_of node), map py_norm (node_deps_of node)) \<in> set ?g"
    using n by auto
  then have "map_of ?g (py_norm (node_id_of node)) = Some (map py_norm (node_deps_of node))"
    using dk by (simp only: map_of_eq_Some_iff)
  then show ?thesis by (simp add: dependency_graph_map[OF d] graph_deps_def)
qed

lemma dependency_graph_keys:
  "distinct (declared_ids ns) \<Longrightarrow> map fst (dependency_graph ns) = declared_ids ns"
  by (simp add: dependency_graph_map declared_ids_def comp_def)

lemma finite_dependency_relation: "finite (dependency_relation ns)"
proof -
  have "dependency_relation ns
        = (\<Union>node \<in> set ns. (\<lambda>dep. (py_norm dep, py_norm (node_id_of node))) ` set (node_deps_of node))"
    unfolding dependency_relation_def by auto
  then show ?thesis by simp
qed

lemma has_circular_dependency_iff:
  assumes d: "distinct (declared_ids ns)"
    and decl: "\<forall>node \<in> set ns. \<forall>dep \<in> set (node_deps_of node). py_norm dep \<in> set (declared_ids ns)"
    and norep: "\<forall>node \<in> set ns. distinct (map py_norm (node_deps_of node))"
  shows "\<not> has_circular_dependency ns \<longleftrightarrow> acyclic (dependency_relation ns)"
proof -
  define g where "g = dependency_graph ns"
  have keys: "map fst g = declared_ids ns" unfolding g_def by (rule dependency_graph_keys[OF d])
  have K: "fst ` set g = set (declared_ids ns)" using keys by (metis set_map)
  have dk: "distinct (map fst g)" using keys d by simp
  have len: "length g = length ns" using keys by (metis length_map declared_ids_def)
  have gd: "\<And>node. node \<in> set ns \<Longrightarrow>
              graph_deps g (py_norm (node_id_of node)) = map py_norm (node_deps_of node)"
    unfolding g_def by (rule dependency_graph_deps[OF d])
  have dd: "\<forall>n \<in> fst ` set g. distinct (graph_deps g n) \<and> set (graph_deps g n) \<subseteq> fst ` set g"
  proof
    fix n assume "n \<in> fst ` set g"
    then obtain node where node: "node \<in> set ns" and n: "n = py_norm (node_id_of node)"
      unfolding K by (auto simp: declared_ids_def)
    have "distinct (graph_deps g n)" using norep node by (simp add: n gd)
    moreover have "set (graph_deps g n) \<subseteq> fst ` set g"
      using decl node unfolding K by (auto simp: n gd)
    ultimately show "distinct (graph_deps g n) \<and> set (graph_deps g n) \<subseteq> fst ` set g" ..
  qed
  have R: "{(d, n). n \<in> fst ` set g \<and> d \<in> set (graph_deps g n)} = dependency_relation ns"
  proof (rule set_eqI)
    fix p :: "pyval \<times> pyval"
    obtain dep n where p: "p = (dep, n)" by (cases p)
    show "p \<in> {(d, n). n \<in> fst ` set g \<and> d \<in> set (graph_deps g n)} \<longleftrightarrow> p \<in> dependency_relation ns"
    proof
      assume "p \<in> {(d, n). n \<in> fst ` set g \<and> d \<in> set (graph_deps g n)}"
      then have nK: "n \<in> fst ` set g" and dn: "dep \<in> set (graph_deps g n)" by (simp_all add: p)
      from nK obtain node where node: "node \<in> set ns" and n: "n = py_norm (node_id_of node)"
        unfolding K by (auto simp: declared_ids_def)
      from dn obtain dep0 where "dep0 \<in> set (node_deps_of node)" "dep = py_norm dep0"
        by (auto simp: n gd[OF node])
      with node show "p \<in> dependency_relation ns"
        unfolding dependency_relation_def p n by blast
    next
      assume "p \<in> dependency_relation ns"
      then obtain dep0 node where node: "node \<in> set ns" and dep0: "dep0 \<in> set (node_deps_of node)"
        and e: "dep = py_norm dep0" "n = py_norm (node_id_of node)"
        unfolding dependency_relation_def p by blast
      have "n \<in> fst ` set g" unfolding K using node by (auto simp: e declared_ids_def)
      moreover have "dep \<in> set (graph_deps g n)" using dep0 by (simp add: e gd[OF node])
      ultimately show "p \<in> {(d, n). n \<in> fst ` set g \<and> d \<in> set (graph_deps g n)}"
        by (simp add: p)
    qed
  qed
  have "\<not> has_circular_dependency ns \<longleftrightarrow>
        kahn_loop g (\<lambda>n. int (length (graph_deps g n)))
           (filter (\<lambda>n. int (length (graph_deps g n)) = 0) (map fst g)) 0 = length g"
    by (simp add: has_circular_dependency_def g_def[symmetric] len)
  also have "\<dots> \<longleftrightarrow> wf (dependency_relation ns)"
    using validator_kahn[OF dk dd] unfolding R .
  also have "\<dots> \<longleftrightarrow> acyclic (dependency_relation ns)"
    using finite_acyclic_wf[OF finite_dependency_relation] wf_acyclic by blast
  finally show ?thesis .
qed

lemma check_dag_cases:
  "check_dag d =
     (case definition_nodes d of
        None \<Rightarrow> (case d of PDict items \<Rightarrow> Some NodesNotAList | _ \<Rightarrow> Some NotADict)
      | Some ns \<Rightarrow>
          if ns = [] then Some EmptyDAG
          else (case check_nodes 0 ns [] of
                  Inl e \<Rightarrow> Some e
                | Inr ids \<Rightarrow>
                    (case check_deps ns ids of
                       Some e \<Rightarrow> Some e
                     | None \<Rightarrow> if has_circular_dependency ns then Some CircularDependencies
                               else None)))"
  by (simp add: check_dag_def definition_nodes_def split: pyval.splits)

lemma checks_pass_iff:
  "(\<exists>ids. check_nodes 0 ns [] = Inr ids \<and> check_deps ns ids = None) \<longleftrightarrow>
   (\<forall>node \<in> set ns. node_shape node) \<and> distinct (declared_ids ns) \<and>
   (\<forall>node \<in> set ns. \<forall>dep \<in> set (node_deps_of node).
      py_norm dep \<in> set (declared_ids ns) \<and> \<not> py_eq dep (node_id_of node))"
proof
  assume "\<exists>ids. check_nodes 0 ns [] = Inr ids \<and> check_deps ns ids = None"
  then obtain ids where c: "check_nodes 0 ns [] = Inr ids" and p: "check_deps ns ids = None"
    by blast
  from c have "list_all node_shape ns" "distinct (declared_ids ns)" "ids = declared_ids ns"
    by (simp_all add: check_nodes_Inr)
  with p show "(\<forall>node \<in> set ns. node_shape node) \<and> distinct (declared_ids ns) \<and>
   (\<forall>node \<in> set ns. \<forall>dep \<in> set (node_deps_of node).
      py_norm dep \<in> set (declared_ids ns) \<and> \<not> py_eq dep (node_id_of node))"
    by (simp add: check_deps_None list_all_iff)
next
  assume a: "(\<forall>node \<in> set ns. node_shape node) \<and> distinct (declared_ids ns) \<and>
   (\<forall>node \<in> set ns. \<forall>dep \<in> set (node_deps_of node).
      py_norm dep \<in> set (declared_ids ns) \<and> \<not> py_eq dep (node_id_of node))"
  then have s: "list_all node_shape ns" by (simp add: list_all_iff)
  have c: "check_nodes 0 ns [] = Inr (declared_ids ns)"
    using a s by (simp add: check_nodes_Inr)
  have "check_deps ns (declared_ids ns) = None"
    unfolding check_deps_None using a declared_hashable[OF s] by blast
  with c show "\<exists>ids. check_nodes 0 ns [] = Inr ids \<and> check_deps ns ids = None" by blast
qed

lemma check_dag_well_formed:
  assumes "definition_nodes d = Some ns" "ns \<noteq> []"
    "(\<forall>node \<in> set ns. node_shape node) \<and> distinct (declared_ids ns) \<and>
     (\<forall>node \<in> set ns. \<forall>dep \<in> set (node_deps_of node).
        py_norm dep \<in> set (declared_ids ns) \<and> \<not> py_eq dep (node_id_of node))"
  shows "check_dag d = (if has_circular_dependency ns then Some CircularDependencies else None)"
proof -
  from assms(3) obtain ids where "check_nodes 0 ns [] = Inr ids" "check_deps ns ids = None"
    unfolding checks_pass_iff[symmetric] by blast
  then show ?thesis using assms(1,2) by (simp add: check_dag_cases)
qed

lemma check_dag_None:
  "check_dag d = None \<Longrightarrow>
   \<exists>ns. definition_nodes d = Some ns \<and> ns \<noteq> [] \<and>
     ((\<forall>node \<in> set ns. node_shape node) \<and> distinct (declared_ids ns) \<and>
      (\<forall>node \<in> set ns. \<forall>dep \<in> set (node_deps_of node).
         py_norm dep \<in> set (declared_ids ns) \<and> \<not> py_eq dep (node_id_of node))) \<and>
     \<not> has_circular_dependency ns"
  unfolding checks_pass_iff[symmetric]
  by (auto simp: check_dag_cases split: option.splits pyval.splits if_splits sum.splits)

lemma message_circular:
  "error_message str_of e = ''DAG contains circular dependencies'' \<longleftrightarrow> e = CircularDependencies"
  by (cases e) simp_all

lemma unhashable_error_kind: "unhashable_error v \<noteq> CircularDependencies"
  by (cases v) simp_all

lemma check_nodes_kind: "check_nodes i ns acc \<noteq> Inl CircularDependencies"
proof (induction ns arbitrary: i acc)
  case Nil
  then show ?case by simp
next
  case (Cons n ns)
  then show ?case
    by (auto simp: unhashable_error_kind split: pyval.splits list.splits)
qed

lemma first_bad_dep_kind: "first_bad_dep nid deps ids \<noteq> Some CircularDependencies"
  by (induction deps) (simp_all add: unhashable_error_kind)

lemma check_deps_kind: "check_deps ns ids \<noteq> Some CircularDependencies"
  using first_bad_dep_kind by (induction ns) (auto split: option.splits)

lemmas validator_eval =
  validate_dag_def check_dag_def dict_get_def required_fields_def node_id_of_def
  node_deps_of_def py_eq_def has_circular_dependency_def dependency_graph_def graph_deps_def
  kahn_loop.simps(2) kahn_visit_def json_node_def

lemma chain_definition_valid: "check_dag chain_definition = None"
  by (simp add: chain_definition_def validator_eval)

lemma blank_definition_valid: "check_dag blank_definition = None"
  by (simp add: blank_definition_def blank_node_def validator_eval)

text \<open>When \<^verbatim>\<open>B\<close> lists its dependency \<^verbatim>\<open>A\<close> twice, the in-degree of \<^verbatim>\<open>B\<close> starts at 2 and
  is decremented once, so \<^verbatim>\<open>B\<close> is never processed.\<close>

lemma repeated_definition_rejected:
  "validate_dag str_of repeated_definition = (False, ''DAG contains circular dependencies'')"
  by (simp add: repeated_definition_def validator_eval)

text \<open>
  Acceptance, for a definition in which no dependency list names the same node twice: the
  checks before the cycle detection pass and the dependency relation is acyclic. The loop of
  Kahn's algorithm processes fewer nodes than there are exactly when there is a cycle.
\<close>

lemma validate_dag_acceptance:
  assumes "no_repeated_dependencies d"
  shows "(fst (validate_dag str_of d) \<longleftrightarrow>
            (\<exists>ns. definition_nodes d = Some ns \<and> well_formed_nodes ns \<and>
                  acyclic (dependency_relation ns))) \<and>
         (fst (validate_dag str_of d) \<longleftrightarrow> snd (validate_dag str_of d) = []) \<and>
         (snd (validate_dag str_of d) = ''DAG contains circular dependencies'' \<longleftrightarrow>
            (\<exists>ns. definition_nodes d = Some ns \<and> well_formed_nodes ns \<and>
                  \<not> acyclic (dependency_relation ns)))"
proof -
  have cyc: "has_circular_dependency ns \<longleftrightarrow> \<not> acyclic (dependency_relation ns)"
    if "definition_nodes d = Some ns" "well_formed_nodes ns" for ns
  proof -
    have "\<forall>node \<in> set ns. distinct (map py_norm (node_deps_of node))"
      using assms that(1) by (simp add: no_repeated_dependencies_def list_all_iff)
    with has_circular_dependency_iff[of ns] that(2) show ?thesis
      unfolding well_formed_nodes_def by blast
  qed
  have wf: "check_dag d = (if has_circular_dependency ns then Some CircularDependencies else None)"
    if "definition_nodes d = Some ns" "well_formed_nodes ns" for ns
    using that check_dag_well_formed[of d ns] unfolding well_formed_nodes_def by blast
  have none: "check_dag d = None \<longleftrightarrow>
      (\<exists>ns. definition_nodes d = Some ns \<and> well_formed_nodes ns \<and> acyclic (dependency_relation ns))"
  proof
    assume "check_dag d = None"
    from check_dag_None[OF this] obtain ns where n: "definition_nodes d = Some ns"
      and w: "well_formed_nodes ns" and c: "\<not> has_circular_dependency ns"
      unfolding well_formed_nodes_def by blast
    with cyc[OF n w] show "\<exists>ns. definition_nodes d = Some ns \<and> well_formed_nodes ns \<and>
      acyclic (dependency_relation ns)" by blast
  next
    assume "\<exists>ns. definition_nodes d = Some ns \<and> well_formed_nodes ns \<and> acyclic (dependency_relation ns)"
    then obtain ns where n: "definition_nodes d = Some ns" and w: "well_formed_nodes ns"
      and a: "acyclic (dependency_relation ns)" by blast
    with cyc[OF n w] wf[OF n w] show "check_dag d = None" by simp
  qed
  have circ: "check_dag d = Some CircularDependencies \<longleftrightarrow>
      (\<exists>ns. definition_nodes d = Some ns \<and> well_formed_nodes ns \<and> \<not> acyclic (dependency_relation ns))"
  proof
    assume c: "check_dag d = Some CircularDependencies"
    then obtain ns where n: "definition_nodes d = Some ns" and e: "ns \<noteq> []"
      by (auto simp: check_dag_cases split: option.splits pyval.splits if_splits)
    from c n e obtain ids where "check_nodes 0 ns [] = Inr ids" "check_deps ns ids = None"
      and h: "has_circular_dependency ns"
      using check_nodes_kind[of 0 ns "[]"] check_deps_kind[of ns]
      by (auto simp: check_dag_cases split: sum.splits option.splits if_splits)
    then have w: "well_formed_nodes ns"
      using e checks_pass_iff[of ns] unfolding well_formed_nodes_def by blast
    with cyc[OF n w] h n show "\<exists>ns. definition_nodes d = Some ns \<and> well_formed_nodes ns \<and>
      \<not> acyclic (dependency_relation ns)" by blast
  next
    assume "\<exists>ns. definition_nodes d = Some ns \<and> well_formed_nodes ns \<and> \<not> acyclic (dependency_relation ns)"
    then obtain ns where n: "definition_nodes d = Some ns" and w: "well_formed_nodes ns"
      and a: "\<not> acyclic (dependency_relation ns)" by blast
    with cyc[OF n w] wf[OF n w] show "check_dag d = Some CircularDependencies" by simp
  qed
  have a: "fst (validate_dag str_of d) \<longleftrightarrow> check_dag d = None"
    by (simp add: validate_dag_def split: option.splits)
  have b: "snd (validate_dag str_of d) = [] \<longleftrightarrow> check_dag d = None"
    by (simp add: validate_dag_def error_message_nonempty split: option.splits)
  have c: "snd (validate_dag str_of d) = ''DAG contains circular dependencies'' \<longleftrightarrow>
           check_dag d = Some CircularDependencies"
    by (simp add: validate_dag_def message_circular split: option.splits)
  show ?thesis unfolding a b c none circ by simp
qed

subsection \<open>The message of each check\<close>

lemma check_nodes_step:
  assumes "node_shape n" "py_norm (node_id_of n) \<notin> set acc"
  shows "check_nodes i (n # ns) acc = check_nodes (Suc i) ns (acc @ [py_norm (node_id_of n)])"
proof -
  from assms(1) obtain kvs where n: "n = PDict kvs"
    by (cases n) (auto simp: node_shape_def has_key_def)
  have f: "filter (\<lambda>field. field \<notin> fst ` set kvs) required_fields = []"
    using assms(1) filter_required[of kvs] by (simp add: node_shape_def n)
  have h: "py_hashable (node_id_of n)" using assms(1) by (simp add: node_shape_def)
  obtain deps where dl: "dict_get kvs ''dependencies'' (PList []) = PList deps"
    using assms(1) by (auto simp: node_shape_def deps_is_list_def n split: pyval.splits)
  show ?thesis using f h dl assms(2) by (simp add: n)
qed

lemma check_nodes_skip:
  "\<forall>n \<in> set pre. node_shape n \<Longrightarrow> distinct (declared_ids pre) \<Longrightarrow>
   set (declared_ids pre) \<inter> set acc = {} \<Longrightarrow>
   check_nodes i (pre @ rest) acc = check_nodes (i + length pre) rest (acc @ declared_ids pre)"
proof (induction pre arbitrary: i acc)
  case Nil
  then show ?case by (simp add: declared_ids_def)
next
  case (Cons n pre)
  have s: "node_shape n" and fresh: "py_norm (node_id_of n) \<notin> set acc"
    using Cons.prems by (auto simp: declared_ids_def)
  have a: "\<forall>n \<in> set pre. node_shape n" and d: "distinct (declared_ids pre)"
    and i: "set (declared_ids pre) \<inter> set (acc @ [py_norm (node_id_of n)]) = {}"
    using Cons.prems by (auto simp: declared_ids_def)
  show ?case
    using check_nodes_step[OF s fresh, of i "pre @ rest"] Cons.IH[OF a d i, of "Suc i"]
    by (simp add: declared_ids_def)
qed

lemma check_nodes_at:
  assumes "\<forall>n \<in> set pre. node_shape n" "distinct (declared_ids pre)"
  shows "check_nodes 0 (pre @ node # post) []
         = check_nodes (length pre) (node # post) (declared_ids pre)"
  using check_nodes_skip[OF assms, of "[]" 0 "node # post"] by simp

lemma first_bad_dep_append:
  "first_bad_dep nid (xs @ ys) ids =
     (case first_bad_dep nid xs ids of Some e \<Rightarrow> Some e | None \<Rightarrow> first_bad_dep nid ys ids)"
  by (induction xs) simp_all

lemma check_deps_append:
  "check_deps (xs @ ys) ids =
     (case check_deps xs ids of Some e \<Rightarrow> Some e | None \<Rightarrow> check_deps ys ids)"
  by (induction xs) (simp_all split: option.splits)

lemma rejected_by_check_nodes:
  assumes "definition_nodes d = Some ns" "ns \<noteq> []" "check_nodes 0 ns [] = Inl e"
  shows "validate_dag str_of d = (False, error_message str_of e)"
  using assms by (simp add: validate_dag_def check_dag_cases)

lemma rejected_by_check_deps:
  assumes "definition_nodes d = Some ns" "ns \<noteq> []" "check_nodes 0 ns [] = Inr ids"
    "check_deps ns ids = Some e"
  shows "validate_dag str_of d = (False, error_message str_of e)"
  using assms by (simp add: validate_dag_def check_dag_cases)

lemma top_level_messages:
  "(\<not> is_dict d \<longrightarrow>
      validate_dag str_of d = (False, ''DAG definition must be a dictionary''))
   \<and> (is_dict d \<and> definition_nodes d = None \<longrightarrow>
      validate_dag str_of d = (False, ''Nodes must be a list''))
   \<and> (definition_nodes d = Some [] \<longrightarrow>
      validate_dag str_of d = (False, ''DAG must contain at least one node''))"
  by (cases d)
     (auto simp: validate_dag_def check_dag_def definition_nodes_def is_dict_def
           split: pyval.splits)

lemma node_messages:
  assumes n: "definition_nodes d = Some (pre @ node # post)"
    and s: "\<forall>n \<in> set pre. node_shape n" and dp: "distinct (declared_ids pre)"
  shows "(\<not> is_dict node \<longrightarrow>
            validate_dag str_of d
            = (False, ''Node '' @ str_of (PInt (int (length pre))) @ '' must be a dictionary''))
       \<and> (is_dict node \<and> \<not> has_key node ''id'' \<longrightarrow>
            validate_dag str_of d
            = (False, ''Node '' @ str_of (PInt (int (length pre)))
                      @ '' missing required field: id''))
       \<and> (has_key node ''id'' \<and> \<not> has_key node ''name'' \<longrightarrow>
            validate_dag str_of d
            = (False, ''Node '' @ str_of (PInt (int (length pre)))
                      @ '' missing required field: name''))
       \<and> (has_key node ''id'' \<and> has_key node ''name'' \<and> \<not> has_key node ''agent_type'' \<longrightarrow>
            validate_dag str_of d
            = (False, ''Node '' @ str_of (PInt (int (length pre)))
              @ '' missing required field: agent_type''))
       \<and> (has_key node ''id'' \<and> has_key node ''name'' \<and> has_key node ''agent_type''
            \<and> \<not> py_hashable (node_id_of node) \<longrightarrow>
            validate_dag str_of d
            = (False, ''DAG validation error: ''
              @ unhashable (if is_dict (node_id_of node) then ''dict'' else ''list'')))
       \<and> (has_key node ''id'' \<and> has_key node ''name'' \<and> has_key node ''agent_type''
            \<and> py_hashable (node_id_of node)
            \<and> py_norm (node_id_of node) \<in> set (declared_ids pre) \<longrightarrow>
            validate_dag str_of d
            = (False, ''Duplicate node ID: '' @ str_of (node_id_of node)))
       \<and> (has_key node ''id'' \<and> has_key node ''name'' \<and> has_key node ''agent_type''
            \<and> py_hashable (node_id_of node)
            \<and> py_norm (node_id_of node) \<notin> set (declared_ids pre)
            \<and> \<not> deps_is_list node \<longrightarrow>
            validate_dag str_of d
            = (False, ''Node '' @ str_of (node_id_of node) @ '' dependencies must be a list''))"
proof -
  have at: "check_nodes 0 (pre @ node # post) []
            = check_nodes (length pre) (node # post) (declared_ids pre)"
    using s dp by (rule check_nodes_at)
  have m: "validate_dag str_of d = (False, error_message str_of e)"
    if "check_nodes (length pre) (node # post) (declared_ids pre) = Inl e" for e
    using rejected_by_check_nodes[OF n _ , of e str_of] that at by simp
  have c1: "check_nodes (length pre) (node # post) (declared_ids pre)
            = Inl (NodeNotADict (length pre))" if "\<not> is_dict node"
    using that by (cases node) (simp_all add: is_dict_def)
  have c2: "check_nodes (length pre) (node # post) (declared_ids pre)
            = Inl (MissingField (length pre) ''id'')" if "is_dict node" "\<not> has_key node ''id''"
    using that by (cases node) (simp_all add: is_dict_def has_key_def required_fields_def)
  have c3: "check_nodes (length pre) (node # post) (declared_ids pre)
            = Inl (MissingField (length pre) ''name'')"
    if "has_key node ''id''" "\<not> has_key node ''name''"
    using that by (cases node) (simp_all add: has_key_def required_fields_def)
  have c4: "check_nodes (length pre) (node # post) (declared_ids pre)
            = Inl (MissingField (length pre) ''agent_type'')"
    if "has_key node ''id''" "has_key node ''name''" "\<not> has_key node ''agent_type''"
    using that by (cases node) (simp_all add: has_key_def required_fields_def)
  have c5: "check_nodes (length pre) (node # post) (declared_ids pre)
            = Inl (ValidationError
                     (unhashable (if is_dict (node_id_of node) then ''dict'' else ''list'')))"
    if "has_key node ''id''" "has_key node ''name''" "has_key node ''agent_type''"
      "\<not> py_hashable (node_id_of node)"
  proof -
    from that(1) obtain kvs where k: "node = PDict kvs"
      by (cases node) (simp_all add: has_key_def)
    have f: "filter (\<lambda>field. field \<notin> fst ` set kvs) required_fields = []"
      using that(1-3) filter_required[of kvs] by (simp add: k)
    have "unhashable_error (node_id_of node)
          = ValidationError (unhashable (if is_dict (node_id_of node) then ''dict'' else ''list''))"
      using that(4) by (cases "node_id_of node") (simp_all add: is_dict_def)
    then show ?thesis using f that(4) by (simp add: k)
  qed
  have c6: "check_nodes (length pre) (node # post) (declared_ids pre)
            = Inl (DuplicateNodeID (node_id_of node))"
    if "has_key node ''id''" "has_key node ''name''" "has_key node ''agent_type''"
      "py_hashable (node_id_of node)" "py_norm (node_id_of node) \<in> set (declared_ids pre)"
  proof -
    from that(1) obtain kvs where k: "node = PDict kvs"
      by (cases node) (simp_all add: has_key_def)
    have f: "filter (\<lambda>field. field \<notin> fst ` set kvs) required_fields = []"
      using that(1-3) filter_required[of kvs] by (simp add: k)
    show ?thesis using f that(4,5) by (simp add: k)
  qed
  have c7: "check_nodes (length pre) (node # post) (declared_ids pre)
            = Inl (DepsNotAList (node_id_of node))"
    if "has_key node ''id''" "has_key node ''name''" "has_key node ''agent_type''"
      "py_hashable (node_id_of node)" "py_norm (node_id_of node) \<notin> set (declared_ids pre)"
      "\<not> deps_is_list node"
  proof -
    from that(1) obtain kvs where k: "node = PDict kvs"
      by (cases node) (simp_all add: has_key_def)
    have f: "filter (\<lambda>field. field \<notin> fst ` set kvs) required_fields = []"
      using that(1-3) filter_required[of kvs] by (simp add: k)
    show ?thesis using f that(4,5,6)
      by (cases "dict_get kvs ''dependencies'' (PList [])") (simp_all add: k deps_is_list_def)
  qed
  show ?thesis
    using m[OF c1] m[OF c2] m[OF c3] m[OF c4] m[OF c5] m[OF c6] m[OF c7] by simp
qed

lemma dependency_messages:
  assumes n: "definition_nodes d = Some (pre @ node # post)"
    and s: "\<forall>n \<in> set (pre @ node # post). node_shape n"
    and dn: "distinct (declared_ids (pre @ node # post))"
    and p: "\<forall>n \<in> set pre. \<forall>x \<in> set (node_deps_of n).
              py_norm x \<in> set (declared_ids (pre @ node # post)) \<and> \<not> py_eq x (node_id_of n)"
    and nd: "node_deps_of node = dpre @ dep # dpost"
    and dp: "\<forall>x \<in> set dpre.
               py_norm x \<in> set (declared_ids (pre @ node # post)) \<and> \<not> py_eq x (node_id_of node)"
  shows "(\<not> py_hashable dep \<longrightarrow>
            validate_dag str_of d
            = (False, ''DAG validation error: '' @ unhashable (if is_dict dep then ''dict'' else ''list'')))
       \<and> (py_hashable dep \<and> py_norm dep \<notin> set (declared_ids (pre @ node # post)) \<longrightarrow>
            validate_dag str_of d
            = (False, ''Node '' @ str_of (node_id_of node) @ '' depends on non-existent node: ''
              @ str_of dep))
       \<and> (py_norm dep \<in> set (declared_ids (pre @ node # post)) \<and> py_eq dep (node_id_of node) \<longrightarrow>
            validate_dag str_of d
            = (False, ''Node '' @ str_of (node_id_of node) @ '' cannot depend on itself''))"
proof -
  let ?ns = "pre @ node # post"
  let ?ids = "declared_ids ?ns"
  have la: "list_all node_shape ?ns" using s by (simp add: list_all_iff)
  have cn: "check_nodes 0 ?ns [] = Inr ?ids"
    using la dn by (simp add: check_nodes_Inr)
  have pre_ok: "check_deps pre ?ids = None"
    unfolding check_deps_None using p declared_hashable[OF la] by blast
  have dpre_ok: "first_bad_dep (node_id_of node) dpre ?ids = None"
    unfolding first_bad_dep_None using dp declared_hashable[OF la] by blast
  have cd: "check_deps ?ns ?ids
            = (case first_bad_dep (node_id_of node) (dep # dpost) ?ids of
                 Some e \<Rightarrow> Some e | None \<Rightarrow> check_deps post ?ids)"
    by (simp add: check_deps_append pre_ok nd first_bad_dep_append dpre_ok)
  have m: "validate_dag str_of d = (False, error_message str_of e)"
    if "first_bad_dep (node_id_of node) (dep # dpost) ?ids = Some e" for e
    using rejected_by_check_deps[OF n _ cn, of e str_of] cd that by simp
  have c1: "first_bad_dep (node_id_of node) (dep # dpost) ?ids
            = Some (ValidationError (unhashable (if is_dict dep then ''dict'' else ''list'')))"
    if "\<not> py_hashable dep"
    using that by (cases dep) (simp_all add: is_dict_def)
  have c2: "first_bad_dep (node_id_of node) (dep # dpost) ?ids
            = Some (DanglingDependency (node_id_of node) dep)"
    if "py_hashable dep" "py_norm dep \<notin> set ?ids"
    using that by simp
  have c3: "first_bad_dep (node_id_of node) (dep # dpost) ?ids = Some (SelfLoop (node_id_of node))"
    if "py_norm dep \<in> set ?ids" "py_eq dep (node_id_of node)"
    using that declared_hashable[OF la that(1)] by simp
  show ?thesis using m[OF c1] m[OF c2] m[OF c3] by simp
qed

subsection \<open>The messages of different checks\<close>

lemma no_space_split:
  "CHR '' '' \<notin> set x \<Longrightarrow> CHR '' '' \<notin> set y \<Longrightarrow>
   (x @ CHR '' '' # r = y @ CHR '' '' # s) = (x = y \<and> r = s)"
proof (induction x arbitrary: y)
  case Nil
  then show ?case by (cases y) auto
next
  case (Cons a x)
  then show ?case by (cases y) auto
qed

lemma error_message_distinct:
  assumes "error_kind e \<noteq> error_kind e'"
    and "CHR '' '' \<notin> set (printed_id str_of e)" "CHR '' '' \<notin> set (printed_id str_of e')"
  shows "error_message str_of e \<noteq> error_message str_of e'"
  using assms by (cases e; cases e') (simp_all add: no_space_split)

lemma messages_distinct:
  assumes "check_dag d = Some e" "check_dag d' = Some e'" "error_kind e \<noteq> error_kind e'"
    and "CHR '' '' \<notin> set (printed_id str_of e)" "CHR '' '' \<notin> set (printed_id str_of e')"
  shows "snd (validate_dag str_of d) \<noteq> snd (validate_dag str_of d')"
  using error_message_distinct[OF assms(3,4,5)] assms(1,2) by (simp add: validate_dag_def)

text \<open>
  A message prints node IDs as they are, so the texts of two checks can coincide when an ID
  has spaces: here an undeclared dependency and a dependency on the node itself give the same
  message.
\<close>

lemma messages_can_coincide:
  assumes "\<And>s. str_of (PStr s) = s"
  shows "check_dag dangling_definition
           = Some (DanglingDependency (PStr ''A'') (PStr ''B cannot depend on itself''))"
    and "check_dag self_loop_definition
           = Some (SelfLoop (PStr ''A depends on non-existent node: B''))"
    and "validate_dag str_of dangling_definition = validate_dag str_of self_loop_definition"
proof -
  show a: "check_dag dangling_definition
           = Some (DanglingDependency (PStr ''A'') (PStr ''B cannot depend on itself''))"
    by (simp add: dangling_definition_def validator_eval)
  show b: "check_dag self_loop_definition
           = Some (SelfLoop (PStr ''A depends on non-existent node: B''))"
    by (simp add: self_loop_definition_def validator_eval)
  show "validate_dag str_of dangling_definition = validate_dag str_of self_loop_definition"
    by (simp add: validate_dag_def a b assms)
qed

text \<open>
  C7, as the code has it. Take a DAG definition in which no dependency list names the same
  node twice: \<^verbatim>\<open>validate_dag\<close> accepts it if and only if the top level is a dict, \<^verbatim>\<open>nodes\<close>
  is a non-empty list of dicts, each node has the keys \<^verbatim>\<open>id\<close>, \<^verbatim>\<open>name\<close> and \<^verbatim>\<open>agent_type\<close>
  (whatever their values, the ID being hashable) and its \<^verbatim>\<open>dependencies\<close>, when given, are a
  list, the node IDs are unique, every dependency is a declared node ID, no node depends on
  itself, and the dependency relation is acyclic; and the message is
  \<^verbatim>\<open>DAG contains circular dependencies\<close> exactly when all the other checks pass and the
  dependency relation has a cycle. For every definition, the message is empty exactly when
  the definition is accepted, and the check that fails first rejects the definition with its
  own message: one for a top level that is not a dict, for \<^verbatim>\<open>nodes\<close> that is not a list, for
  an empty list; then, at the first node that fails (the nodes before it have the shape asked
  for and distinct IDs), one for a node that is not a dict, for the first missing field, for
  an ID that cannot be hashed, for an ID seen before, for dependencies that are not a list;
  then, when all the nodes have passed, at the first dependency that fails, one for a
  dependency that cannot be hashed, that is not declared, that is the node itself. The
  messages of two different checks are different texts, provided that what they print right
  after the word \<^verbatim>\<open>Node\<close> has no space.
\<close>

theorem validate_dag_checks_and_messages:
  "(no_repeated_dependencies d \<longrightarrow>
      (fst (validate_dag str_of d) \<longleftrightarrow>
         (\<exists>ns. definition_nodes d = Some ns \<and> well_formed_nodes ns \<and>
               acyclic (dependency_relation ns))) \<and>
      (snd (validate_dag str_of d) = ''DAG contains circular dependencies'' \<longleftrightarrow>
         (\<exists>ns. definition_nodes d = Some ns \<and> well_formed_nodes ns \<and>
               \<not> acyclic (dependency_relation ns))))
   \<and> (fst (validate_dag str_of d) \<longleftrightarrow> snd (validate_dag str_of d) = [])
   \<and> (\<not> is_dict d \<longrightarrow>
        validate_dag str_of d = (False, ''DAG definition must be a dictionary''))
   \<and> (is_dict d \<and> definition_nodes d = None \<longrightarrow>
        validate_dag str_of d = (False, ''Nodes must be a list''))
   \<and> (definition_nodes d = Some [] \<longrightarrow>
        validate_dag str_of d = (False, ''DAG must contain at least one node''))
   \<and> (\<forall>pre node post.
         definition_nodes d = Some (pre @ node # post) \<and> (\<forall>n \<in> set pre. node_shape n) \<and>
         distinct (declared_ids pre) \<longrightarrow>
         (\<not> is_dict node \<longrightarrow>
            validate_dag str_of d
            = (False, ''Node '' @ str_of (PInt (int (length pre))) @ '' must be a dictionary''))
       \<and> (is_dict node \<and> \<not> has_key node ''id'' \<longrightarrow>
            validate_dag str_of d
            = (False, ''Node '' @ str_of (PInt (int (length pre)))
                      @ '' missing required field: id''))
       \<and> (has_key node ''id'' \<and> \<not> has_key node ''name'' \<longrightarrow>
            validate_dag str_of d
            = (False, ''Node '' @ str_of (PInt (int (length pre)))
                      @ '' missing required field: name''))
       \<and> (has_key node ''id'' \<and> has_key node ''name'' \<and> \<not> has_key node ''agent_type'' \<longrightarrow>
            validate_dag str_of d
            = (False, ''Node '' @ str_of (PInt (int (length pre)))
              @ '' missing required field: agent_type''))
       \<and> (has_key node ''id'' \<and> has_key node ''name'' \<and> has_key node ''agent_type''
            \<and> \<not> py_hashable (node_id_of node) \<longrightarrow>
            validate_dag str_of d
            = (False, ''DAG validation error: ''
              @ unhashable (if is_dict (node_id_of node) then ''dict'' else ''list'')))
       \<and> (has_key node ''id'' \<and> has_key node ''name'' \<and> has_key node ''agent_type''
            \<and> py_hashable (node_id_of node)
            \<and> py_norm (node_id_of node) \<in> set (declared_ids pre) \<longrightarrow>
            validate_dag str_of d
            = (False, ''Duplicate node ID: '' @ str_of (node_id_of node)))
       \<and> (has_key node ''id'' \<and> has_key node ''name'' \<and> has_key node ''agent_type''
            \<and> py_hashable (node_id_of node)
            \<and> py_norm (node_id_of node) \<notin> set (declared_ids pre)
            \<and> \<not> deps_is_list node \<longrightarrow>
            validate_dag str_of d
            = (False, ''Node '' @ str_of (node_id_of node) @ '' dependencies must be a list'')))
   \<and> (\<forall>pre node post dpre dep dpost.
         definition_nodes d = Some (pre @ node # post) \<and>
         (\<forall>n \<in> set (pre @ node # post). node_shape n) \<and>
         distinct (declared_ids (pre @ node # post)) \<and>
         (\<forall>n \<in> set pre. \<forall>x \<in> set (node_deps_of n).
            py_norm x \<in> set (declared_ids (pre @ node # post)) \<and> \<not> py_eq x (node_id_of n)) \<and>
         node_deps_of node = dpre @ dep # dpost \<and>
         (\<forall>x \<in> set dpre.
            py_norm x \<in> set (declared_ids (pre @ node # post)) \<and> \<not> py_eq x (node_id_of node))
         \<longrightarrow>
         (\<not> py_hashable dep \<longrightarrow>
            validate_dag str_of d
            = (False, ''DAG validation error: ''
                      @ unhashable (if is_dict dep then ''dict'' else ''list'')))
       \<and> (py_hashable dep \<and> py_norm dep \<notin> set (declared_ids (pre @ node # post)) \<longrightarrow>
            validate_dag str_of d
            = (False, ''Node '' @ str_of (node_id_of node) @ '' depends on non-existent node: ''
              @ str_of dep))
       \<and> (py_norm dep \<in> set (declared_ids (pre @ node # post)) \<and> py_eq dep (node_id_of node) \<longrightarrow>
            validate_dag str_of d
            = (False, ''Node '' @ str_of (node_id_of node) @ '' cannot depend on itself'')))
   \<and> (\<forall>d' e e'.
         check_dag d = Some e \<and> check_dag d' = Some e' \<and> error_kind e \<noteq> error_kind e' \<and>
         CHR '' '' \<notin> set (printed_id str_of e) \<and> CHR '' '' \<notin> set (printed_id str_of e') \<longrightarrow>
         snd (validate_dag str_of d) \<noteq> snd (validate_dag str_of d'))"
proof (intro conjI)
  show "no_repeated_dependencies d \<longrightarrow>
      (fst (validate_dag str_of d) \<longleftrightarrow>
         (\<exists>ns. definition_nodes d = Some ns \<and> well_formed_nodes ns \<and>
               acyclic (dependency_relation ns))) \<and>
      (snd (validate_dag str_of d) = ''DAG contains circular dependencies'' \<longleftrightarrow>
         (\<exists>ns. definition_nodes d = Some ns \<and> well_formed_nodes ns \<and>
               \<not> acyclic (dependency_relation ns)))"
    using validate_dag_acceptance[of d str_of] by blast
  show "fst (validate_dag str_of d) \<longleftrightarrow> snd (validate_dag str_of d) = []"
    by (simp add: validate_dag_def error_message_nonempty split: option.splits)
  show "\<not> is_dict d \<longrightarrow>
        validate_dag str_of d = (False, ''DAG definition must be a dictionary'')"
    using top_level_messages[of d str_of] by blast
  show "is_dict d \<and> definition_nodes d = None \<longrightarrow>
        validate_dag str_of d = (False, ''Nodes must be a list'')"
    using top_level_messages[of d str_of] by blast
  show "definition_nodes d = Some [] \<longrightarrow>
        validate_dag str_of d = (False, ''DAG must contain at least one node'')"
    using top_level_messages[of d str_of] by blast
  show "\<forall>pre node post.
         definition_nodes d = Some (pre @ node # post) \<and> (\<forall>n \<in> set pre. node_shape n) \<and>
         distinct (declared_ids pre) \<longrightarrow>
         (\<not> is_dict node \<longrightarrow>
            validate_dag str_of d
            = (False, ''Node '' @ str_of (PInt (int (length pre))) @ '' must be a dictionary''))
       \<and> (is_dict node \<and> \<not> has_key node ''id'' \<longrightarrow>
            validate_dag str_of d
            = (False, ''Node '' @ str_of (PInt (int (length pre)))
                      @ '' missing required field: id''))
       \<and> (has_key node ''id'' \<and> \<not> has_key node ''name'' \<longrightarrow>
            validate_dag str_of d
            = (False, ''Node '' @ str_of (PInt (int (length pre)))
                      @ '' missing required field: name''))
       \<and> (has_key node ''id'' \<and> has_key node ''name'' \<and> \<not> has_key node ''agent_type'' \<longrightarrow>
            validate_dag str_of d
            = (False, ''Node '' @ str_of (PInt (int (length pre)))
              @ '' missing required field: agent_type''))
       \<and> (has_key node ''id'' \<and> has_key node ''name'' \<and> has_key node ''agent_type''
            \<and> \<not> py_hashable (node_id_of node) \<longrightarrow>
            validate_dag str_of d
            = (False, ''DAG validation error: ''
              @ unhashable (if is_dict (node_id_of node) then ''dict'' else ''list'')))
       \<and> (has_key node ''id'' \<and> has_key node ''name'' \<and> has_key node ''agent_type''
            \<and> py_hashable (node_id_of node)
            \<and> py_norm (node_id_of node) \<in> set (declared_ids pre) \<longrightarrow>
            validate_dag str_of d
            = (False, ''Duplicate node ID: '' @ str_of (node_id_of node)))
       \<and> (has_key node ''id'' \<and> has_key node ''name'' \<and> has_key node ''agent_type''
            \<and> py_hashable (node_id_of node)
            \<and> py_norm (node_id_of node) \<notin> set (declared_ids pre)
            \<and> \<not> deps_is_list node \<longrightarrow>
            validate_dag str_of d
            = (False, ''Node '' @ str_of (node_id_of node) @ '' dependencies must be a list''))"
  proof (intro allI impI, elim conjE)
    fix pre node post
    assume "definition_nodes d = Some (pre @ node # post)" "\<forall>n \<in> set pre. node_shape n"
      "distinct (declared_ids pre)"
    then show "(\<not> is_dict node \<longrightarrow>
            validate_dag str_of d
            = (False, ''Node '' @ str_of (PInt (int (length pre))) @ '' must be a dictionary''))
       \<and> (is_dict node \<and> \<not> has_key node ''id'' \<longrightarrow>
            validate_dag str_of d
            = (False, ''Node '' @ str_of (PInt (int (length pre)))
                      @ '' missing required field: id''))
       \<and> (has_key node ''id'' \<and> \<not> has_key node ''name'' \<longrightarrow>
            validate_dag str_of d
            = (False, ''Node '' @ str_of (PInt (int (length pre)))
                      @ '' missing required field: name''))
       \<and> (has_key node ''id'' \<and> has_key node ''name'' \<and> \<not> has_key node ''agent_type'' \<longrightarrow>
            validate_dag str_of d
            = (False, ''Node '' @ str_of (PInt (int (length pre)))
              @ '' missing required field: agent_type''))
       \<and> (has_key node ''id'' \<and> has_key node ''name'' \<and> has_key node ''agent_type''
            \<and> \<not> py_hashable (node_id_of node) \<longrightarrow>
            validate_dag str_of d
            = (False, ''DAG validation error: ''
              @ unhashable (if is_dict (node_id_of node) then ''dict'' else ''list'')))
       \<and> (has_key node ''id'' \<and> has_key node ''name'' \<and> has_key node ''agent_type''
            \<and> py_hashable (node_id_of node)
            \<and> py_norm (node_id_of node) \<in> set (declared_ids pre) \<longrightarrow>
            validate_dag str_of d
            = (False, ''Duplicate node ID: '' @ str_of (node_id_of node)))
       \<and> (has_key node ''id'' \<and> has_key node ''name'' \<and> has_key node ''agent_type''
            \<and> py_hashable (node_id_of node)
            \<and> py_norm (node_id_of node) \<notin> set (declared_ids pre)
            \<and> \<not> deps_is_list node \<longrightarrow>
            validate_dag str_of d
            = (False, ''Node '' @ str_of (node_id_of node) @ '' dependencies must be a list''))"
      by (rule node_messages)
  qed
  show "\<forall>pre node post dpre dep dpost.
         definition_nodes d = Some (pre @ node # post) \<and>
         (\<forall>n \<in> set (pre @ node # post). node_shape n) \<and>
         distinct (declared_ids (pre @ node # post)) \<and>
         (\<forall>n \<in> set pre. \<forall>x \<in> set (node_deps_of n).
            py_norm x \<in> set (declared_ids (pre @ node # post)) \<and> \<not> py_eq x (node_id_of n)) \<and>
         node_deps_of node = dpre @ dep # dpost \<and>
         (\<forall>x \<in> set dpre.
            py_norm x \<in> set (declared_ids (pre @ node # post)) \<and> \<not> py_eq x (node_id_of node))
         \<longrightarrow>
         (\<not> py_hashable dep \<longrightarrow>
            validate_dag str_of d
            = (False, ''DAG validation error: ''
                      @ unhashable (if is_dict dep then ''dict'' else ''list'')))
       \<and> (py_hashable dep \<and> py_norm dep \<notin> set (declared_ids (pre @ node # post)) \<longrightarrow>
            validate_dag str_of d
            = (False, ''Node '' @ str_of (node_id_of node) @ '' depends on non-existent node: ''
              @ str_of dep))
       \<and> (py_norm dep \<in> set (declared_ids (pre @ node # post)) \<and> py_eq dep (node_id_of node) \<longrightarrow>
            validate_dag str_of d
            = (False, ''Node '' @ str_of (node_id_of node) @ '' cannot depend on itself''))"
  proof (intro allI impI, elim conjE)
    fix pre node post dpre dep dpost
    assume "definition_nodes d = Some (pre @ node # post)"
      "\<forall>n \<in> set (pre @ node # post). node_shape n"
      "distinct (declared_ids (pre @ node # post))"
      "\<forall>n \<in> set pre. \<forall>x \<in> set (node_deps_of n).
            py_norm x \<in> set (declared_ids (pre @ node # post)) \<and> \<not> py_eq x (node_id_of n)"
      "node_deps_of node = dpre @ dep # dpost"
      "\<forall>x \<in> set dpre.
            py_norm x \<in> set (declared_ids (pre @ node # post)) \<and> \<not> py_eq x (node_id_of node)"
    then show "(\<not> py_hashable dep \<longrightarrow>
            validate_dag str_of d
            = (False, ''DAG validation error: ''
                      @ unhashable (if is_dict dep then ''dict'' else ''list'')))
       \<and> (py_hashable dep \<and> py_norm dep \<notin> set (declared_ids (pre @ node # post)) \<longrightarrow>
            validate_dag str_of d
            = (False, ''Node '' @ str_of (node_id_of node) @ '' depends on non-existent node: ''
              @ str_of dep))
       \<and> (py_norm dep \<in> set (declared_ids (pre @ node # post)) \<and> py_eq dep (node_id_of node) \<longrightarrow>
            validate_dag str_of d
            = (False, ''Node '' @ str_of (node_id_of node) @ '' cannot depend on itself''))"
      by (rule dependency_messages)
  qed
  show "\<forall>d' e e'.
         check_dag d = Some e \<and> check_dag d' = Some e' \<and> error_kind e \<noteq> error_kind e' \<and>
         CHR '' '' \<notin> set (printed_id str_of e) \<and> CHR '' '' \<notin> set (printed_id str_of e') \<longrightarrow>
         snd (validate_dag str_of d) \<noteq> snd (validate_dag str_of d')"
    using messages_distinct[of d _ _ _ str_of] by blast
qed

lemmas shape_eval =
  definition_nodes_def json_node_def dict_get_def node_shape_def has_key_def deps_is_list_def
  node_id_of_def node_deps_of_def declared_ids_def str_of_string_def py_eq_def

theorem validate_dag_checks_and_messages_witness:
  "no_repeated_dependencies chain_definition
   \<and> validate_dag str_of_string chain_definition = (True, [])
   \<and> acyclic (dependency_relation [json_node ''A'' ''Search'' ''web_search'' [],
                                   json_node ''B'' ''Write'' ''text_writing'' [''A'']])
   \<and> validate_dag str_of_string (PList []) = (False, ''DAG definition must be a dictionary'')
   \<and> validate_dag str_of_string duplicate_definition = (False, ''Duplicate node ID: A'')
   \<and> validate_dag str_of_string undeclared_definition
       = (False, ''Node B depends on non-existent node: C'')"
proof -
  have n: "definition_nodes chain_definition = Some [json_node ''A'' ''Search'' ''web_search'' [],
                                 json_node ''B'' ''Write'' ''text_writing'' [''A'']]"
    by (simp add: chain_definition_def definition_nodes_def dict_get_def)
  have r: "no_repeated_dependencies chain_definition"
    by (simp add: no_repeated_dependencies_def n node_deps_of_def json_node_def dict_get_def)
  have v: "validate_dag str_of_string chain_definition = (True, [])"
    by (simp add: validate_dag_def chain_definition_valid)
  from validate_dag_checks_and_messages
         [where d = chain_definition and str_of = str_of_string, THEN conjunct1] r v n
  have a: "acyclic (dependency_relation [json_node ''A'' ''Search'' ''web_search'' [],
                                 json_node ''B'' ''Write'' ''text_writing'' [''A'']])"
    by simp
  have t: "validate_dag str_of_string (PList [])
           = (False, ''DAG definition must be a dictionary'')"
    using validate_dag_checks_and_messages
            [where d = "PList []" and str_of = str_of_string,
             THEN conjunct2, THEN conjunct2, THEN conjunct1]
    by (simp add: is_dict_def)
  have dup: "validate_dag str_of_string duplicate_definition
             = (False, ''Duplicate node ID: A'')"
    using validate_dag_checks_and_messages
            [where d = duplicate_definition and str_of = str_of_string,
             THEN conjunct2, THEN conjunct2, THEN conjunct2, THEN conjunct2, THEN conjunct2,
             THEN conjunct1, rule_format,
             of "[json_node ''A'' ''Search'' ''web_search'' []]"
                "json_node ''A'' ''Write'' ''text_writing'' []" "[]"]
    by (simp add: duplicate_definition_def shape_eval)
  have und: "validate_dag str_of_string undeclared_definition
             = (False, ''Node B depends on non-existent node: C'')"
    using validate_dag_checks_and_messages
            [where d = undeclared_definition and str_of = str_of_string,
             THEN conjunct2, THEN conjunct2, THEN conjunct2, THEN conjunct2, THEN conjunct2,
             THEN conjunct2, THEN conjunct1, rule_format,
             of "[json_node ''A'' ''Search'' ''web_search'' []]"
                "json_node ''B'' ''Write'' ''text_writing'' [''A'', ''C'']" "[]"
                "[PStr ''A'']" "PStr ''C''" "[]"]
    by (simp add: undeclared_definition_def shape_eval)
  from r v a t dup und show ?thesis by simp
qed

text \<open>
  C7 as stated fails: the validator looks for the keys \<^verbatim>\<open>id\<close>, \<^verbatim>\<open>name\<close> and \<^verbatim>\<open>agent_type\<close>
  and never at their values. A definition with one node whose three fields are empty strings
  is accepted, with the empty error message.
\<close>

theorem empty_fields_are_accepted_counterexample:
  "definition_nodes blank_definition = Some [blank_node] \<and>
   blank_node = PDict [(''id'', PStr ''''), (''name'', PStr ''''), (''agent_type'', PStr '''')] \<and>
   (\<forall>str_of. validate_dag str_of blank_definition = (True, []))"
  by (simp add: validate_dag_def blank_definition_valid)
     (simp add: blank_definition_def blank_node_def definition_nodes_def dict_get_def)

end
